theory Spec2Isabelle
  imports Main "HOL-Library.Word"
begin

section \<open>The audio mixer of Tellyo-mixer.cpp\<close>

text \<open>
  The mixer is a graph of single-channel input ports, output ports and matrix points
  (one gain "knob" per input-to-output send). Objects live on the C++ heap and refer to
  each other through raw pointers, so the model keeps an explicit store: one map from
  addresses to objects per class, and a flat sample memory for the audio buffers.

  Conventions of the model:
  \<^item> an object pointer and a sample pointer is a \<open>nat\<close>; \<open>0\<close> is \<open>nullptr\<close>;
  \<^item> \<open>unsigned int\<close> and \<open>jack_nframes_t\<close> are \<open>32 word\<close>;
  \<^item> \<open>float\<close> is a type variable \<open>'a\<close> of the classes \<open>zero\<close>, \<open>plus\<close> and
    \<open>times\<close> only: no law of arithmetic (associativity, neutrality of zero, ...) is
    assumed, so every result holds for IEEE single precision with its rounding;
  \<^item> \<open>assert\<close> is compiled in: a failed assertion is the result \<open>Inl Assertion_Failed\<close>;
    dereferencing a null or dangling pointer is the result \<open>Inl Invalid_Pointer\<close>
    (\<open>Storage_In_Use\<close> belongs to the sequences of constructor calls below);
  \<^item> a data member \<open>x_\<close> of the source is the record field \<open>x\<close> (\<open>input_ptr\<close> and
    \<open>output_ptr\<close> for \<open>input_\<close> and \<open>output_\<close>), and a member function that would
    clash with a field carries its class name (\<open>Port_buffer\<close>);
  \<^item> the lines written to \<open>std::cerr\<close> by the counters are not part of the model, nor
    are the registration of a port with the backend in the constructor and destructor of
    \<open>Port\<close> and the accessors \<open>name()\<close>, \<open>input()\<close> and \<open>output()\<close>.
\<close>

datatype error = Assertion_Failed | Invalid_Pointer | Storage_In_Use

definition ebind :: "error + 'a \<Rightarrow> ('a \<Rightarrow> error + 'b) \<Rightarrow> error + 'b" where
  "ebind m f = (case m of Inl e \<Rightarrow> Inl e | Inr x \<Rightarrow> f x)"

definition deref :: "(nat \<rightharpoonup> 'o) \<Rightarrow> nat \<Rightarrow> error + 'o" where
  "deref h a = (if a = 0 then Inl Invalid_Pointer
                else case h a of None \<Rightarrow> Inl Invalid_Pointer | Some x \<Rightarrow> Inr x)"

subsection \<open>class CountUsers\<close>

text \<open>
  \<open>Port\<close> and \<open>MatrixPoint\<close> inherit from \<open>CountUsers\<close>: the derived classes are
  extensions of the record, and the member functions work on every extension.
\<close>

record count_users =
  users_count :: "32 word"

definition incrementUsers :: "'r count_users_scheme \<Rightarrow> 'r count_users_scheme" where
  "incrementUsers c = c\<lparr>users_count := users_count c + 1\<rparr>"

definition decrementUsers :: "'r count_users_scheme \<Rightarrow> error + 'r count_users_scheme" where
  "decrementUsers c =
     (if users_count c = 0 then Inl Assertion_Failed
      else Inr (c\<lparr>users_count := users_count c - 1\<rparr>))"


text \<open>A sequence of calls on one counter, stopping at the first failed assertion.\<close>

datatype users_call = Increment | Decrement

fun call_users :: "users_call \<Rightarrow> 'r count_users_scheme \<Rightarrow> error + 'r count_users_scheme" where
  "call_users Increment c = Inr (incrementUsers c)"
| "call_users Decrement c = decrementUsers c"

fun run_users :: "users_call list \<Rightarrow> 'r count_users_scheme \<Rightarrow> error + 'r count_users_scheme" where
  "run_users [] c = Inr c"
| "run_users (x # xs) c = ebind (call_users x c) (run_users xs)"

subsection \<open>class Port\<close>

text \<open>
  \<open>jack_port_get_buffer\<close> belongs to the audio backend; it is a parameter \<open>jack\<close> of
  the model, from the port token and the block size to the address of the buffer.
  The constructor leaves \<open>buffer\<close> uninitialised, and nothing resets it between blocks.
\<close>

record port = count_users +
  jack_port :: nat
  name :: string
  buffer :: nat

definition updateBufferAddress :: "(nat \<Rightarrow> 32 word \<Rightarrow> nat) \<Rightarrow> 32 word \<Rightarrow> port \<Rightarrow> port" where
  "updateBufferAddress jack nframes p = p\<lparr>buffer := jack (jack_port p) nframes\<rparr>"

definition Port_buffer :: "port \<Rightarrow> error + nat" where
  "Port_buffer p = (if buffer p = 0 then Inl Assertion_Failed else Inr (buffer p))"

subsection \<open>class OutputPort\<close>

text \<open>
  \<open>std::fill(first, last, 0)\<close> stores zero at every address from \<open>first\<close> up to, not
  including, \<open>last\<close>. \<open>resetBuffer\<close> does not look at the pointer before it writes:
  with a null \<open>buffer\<close> and a block that is not empty, the write is through \<open>nullptr\<close>.
\<close>

function fill :: "nat \<Rightarrow> nat \<Rightarrow> 'a \<Rightarrow> (nat \<Rightarrow> 'a) \<Rightarrow> (nat \<Rightarrow> 'a)" where
  "fill first end v m = (if first < end then fill (Suc first) end v (m(first := v)) else m)"
  by pat_completeness auto
termination
  by (relation "measure (\<lambda>(first, end, v, m). end - first)") auto

definition resetBuffer :: "32 word \<Rightarrow> port \<Rightarrow> (nat \<Rightarrow> 'a::zero) \<Rightarrow> error + (nat \<Rightarrow> 'a)" where
  "resetBuffer nframes p m =
     (if buffer p = 0 \<and> nframes \<noteq> 0 then Inl Invalid_Pointer
      else Inr (fill (buffer p) (buffer p + unat nframes) 0 m))"

subsection \<open>The store\<close>

record 'a matrix_point = count_users +
  input_ptr :: nat
  output_ptr :: nat
  gain :: 'a

text \<open>
  \<open>InputPort*\<close> and \<open>OutputPort*\<close> are different pointer types, so the objects of
  the two classes are kept in two maps. \<open>samples\<close> is the memory the audio buffers
  point into, one sample per address.
\<close>

record 'a state =
  input_ports :: "nat \<rightharpoonup> port"
  output_ports :: "nat \<rightharpoonup> port"
  points :: "nat \<rightharpoonup> 'a matrix_point"
  samples :: "nat \<Rightarrow> 'a"

text \<open>\<open>ptr->incrementUsers()\<close> and \<open>ptr->decrementUsers()\<close> for the three pointer types.\<close>

definition input_incrementUsers :: "nat \<Rightarrow> 'a state \<Rightarrow> error + 'a state" where
  "input_incrementUsers a s =
     ebind (deref (input_ports s) a)
       (\<lambda>p. Inr (s\<lparr>input_ports := (input_ports s)(a \<mapsto> incrementUsers p)\<rparr>))"

definition output_incrementUsers :: "nat \<Rightarrow> 'a state \<Rightarrow> error + 'a state" where
  "output_incrementUsers a s =
     ebind (deref (output_ports s) a)
       (\<lambda>p. Inr (s\<lparr>output_ports := (output_ports s)(a \<mapsto> incrementUsers p)\<rparr>))"

definition point_incrementUsers :: "nat \<Rightarrow> 'a state \<Rightarrow> error + 'a state" where
  "point_incrementUsers a s =
     ebind (deref (points s) a)
       (\<lambda>p. Inr (s\<lparr>points := (points s)(a \<mapsto> incrementUsers p)\<rparr>))"

definition input_decrementUsers :: "nat \<Rightarrow> 'a state \<Rightarrow> error + 'a state" where
  "input_decrementUsers a s =
     ebind (deref (input_ports s) a) (\<lambda>p.
     ebind (decrementUsers p) (\<lambda>p'.
     Inr (s\<lparr>input_ports := (input_ports s)(a \<mapsto> p')\<rparr>)))"

definition output_decrementUsers :: "nat \<Rightarrow> 'a state \<Rightarrow> error + 'a state" where
  "output_decrementUsers a s =
     ebind (deref (output_ports s) a) (\<lambda>p.
     ebind (decrementUsers p) (\<lambda>p'.
     Inr (s\<lparr>output_ports := (output_ports s)(a \<mapsto> p')\<rparr>)))"

definition point_decrementUsers :: "nat \<Rightarrow> 'a state \<Rightarrow> error + 'a state" where
  "point_decrementUsers a s =
     ebind (deref (points s) a) (\<lambda>p.
     ebind (decrementUsers p) (\<lambda>p'.
     Inr (s\<lparr>points := (points s)(a \<mapsto> p')\<rparr>)))"

subsection \<open>class MatrixPoint\<close>

text \<open>
  The constructors take the address \<open>this\<close> of the object under construction. None of
  them names the base class in its initialiser list, so the new object's own counter
  starts at zero. The default argument \<open>gain = 0\<close> is \<open>MatrixPoint_new this i o 0\<close>.
\<close>

definition MatrixPoint_new :: "nat \<Rightarrow> nat \<Rightarrow> nat \<Rightarrow> 'a \<Rightarrow> 'a state \<Rightarrow> error + 'a state" where
  "MatrixPoint_new this inp outp g s =
     ebind (input_incrementUsers inp
              (s\<lparr>points := (points s)(this \<mapsto>
                   \<lparr>users_count = 0, input_ptr = inp, output_ptr = outp, gain = g\<rparr>)\<rparr>))
       (output_incrementUsers outp)"

definition MatrixPoint_copy :: "nat \<Rightarrow> nat \<Rightarrow> 'a state \<Rightarrow> error + 'a state" where
  "MatrixPoint_copy this copyfrom s =
     ebind (deref (points s) copyfrom) (\<lambda>c.
     ebind (input_incrementUsers (input_ptr c)
              (s\<lparr>points := (points s)(this \<mapsto>
                   \<lparr>users_count = 0, input_ptr = input_ptr c, output_ptr = output_ptr c, gain = gain c\<rparr>)\<rparr>))
       (output_incrementUsers (output_ptr c)))"

definition MatrixPoint_move :: "nat \<Rightarrow> nat \<Rightarrow> 'a state \<Rightarrow> error + 'a state" where
  "MatrixPoint_move this movefrom s =
     ebind (deref (points s) movefrom) (\<lambda>m.
     Inr (s\<lparr>points := (points s)
            (this \<mapsto> \<lparr>users_count = 0, input_ptr = input_ptr m, output_ptr = output_ptr m, gain = gain m\<rparr>,
             movefrom \<mapsto> m\<lparr>input_ptr := 0, output_ptr := 0\<rparr>)\<rparr>))"

definition MatrixPoint_delete :: "nat \<Rightarrow> 'a state \<Rightarrow> error + 'a state" where
  "MatrixPoint_delete this s =
     ebind (deref (points s) this) (\<lambda>m.
     ebind (if input_ptr m \<noteq> 0 then input_decrementUsers (input_ptr m) s else Inr s) (\<lambda>s1.
     ebind (if output_ptr m \<noteq> 0 then output_decrementUsers (output_ptr m) s1 else Inr s1) (\<lambda>s2.
     Inr (s2\<lparr>points := (points s2)(this := None)\<rparr>))))"

text \<open>
  The loop of \<open>process\<close>, with its counter \<open>i\<close> of type \<open>jack_nframes_t\<close>. The gain is
  the local constant loaded before the loop.
\<close>

function process_loop ::
  "'a::{plus,times} \<Rightarrow> nat \<Rightarrow> nat \<Rightarrow> 32 word \<Rightarrow> 32 word \<Rightarrow> (nat \<Rightarrow> 'a) \<Rightarrow> (nat \<Rightarrow> 'a)" where
  "process_loop g in_buffer out_buffer i samples_count m =
     (if i < samples_count
      then process_loop g in_buffer out_buffer (i + 1) samples_count
             (m(out_buffer + unat i := m (out_buffer + unat i) + g * m (in_buffer + unat i)))
      else m)"
  by pat_completeness auto
termination
proof (relation "measure (\<lambda>(g, in_buffer, out_buffer, i, samples_count, m). unat samples_count - unat i)")
  fix g :: 'a and in_buffer out_buffer :: nat and i samples_count :: "32 word" and m :: "nat \<Rightarrow> 'a"
  assume less: "i < samples_count"
  then have "unat i < unat samples_count" by (simp add: word_less_nat_alt)
  moreover have "unat samples_count < 2 ^ 32"
    using unsigned_less [of samples_count, where ?'a = nat] by simp
  ultimately have "unat i + unat (1 :: 32 word) < 2 ^ LENGTH(32)" by simp
  then have "unat (i + 1) = unat i + unat (1 :: 32 word)" by (simp only: unat_add_lem [THEN iffD1])
  with \<open>unat i < unat samples_count\<close>
  show "((g, in_buffer, out_buffer, i + 1, samples_count,
          m(out_buffer + unat i := m (out_buffer + unat i) + g * m (in_buffer + unat i))),
         (g, in_buffer, out_buffer, i, samples_count, m))
        \<in> measure (\<lambda>(g, in_buffer, out_buffer, i, samples_count, m). unat samples_count - unat i)"
    by simp
qed simp

definition MatrixPoint_process :: "32 word \<Rightarrow> nat \<Rightarrow> 'a::{plus,times} state \<Rightarrow> error + 'a state" where
  "MatrixPoint_process samples_count this s =
     ebind (deref (points s) this) (\<lambda>m.
     ebind (deref (input_ports s) (input_ptr m)) (\<lambda>ip.
     ebind (Port_buffer ip) (\<lambda>in_buffer.
     ebind (deref (output_ports s) (output_ptr m)) (\<lambda>op.
     ebind (Port_buffer op) (\<lambda>out_buffer.
     Inr (s\<lparr>samples := process_loop (gain m) in_buffer out_buffer 0 samples_count (samples s)\<rparr>))))))"

definition setGain :: "'a \<Rightarrow> nat \<Rightarrow> 'a state \<Rightarrow> error + 'a state" where
  "setGain g this s =
     ebind (deref (points s) this)
       (\<lambda>m. Inr (s\<lparr>points := (points s)(this \<mapsto> m\<lparr>gain := g\<rparr>)\<rparr>))"

text \<open>
  \<open>setGain\<close> may run on the control thread while \<open>process\<close> runs on the real-time
  thread. \<open>gain_\<close> is a \<open>std::atomic\<close> read and written with the default sequentially
  consistent order, and \<open>setGain\<close> touches nothing else, so the two threads interleave:
  \<open>control i\<close> is the value of the last \<open>setGain\<close> that lands just before iteration \<open>i\<close>
  of the loop, if there is one.
\<close>

function process_loop_with_setGain ::
  "(32 word \<Rightarrow> 'a option) \<Rightarrow> nat \<Rightarrow> 'a::{plus,times} \<Rightarrow> nat \<Rightarrow> nat \<Rightarrow> 32 word \<Rightarrow> 32 word \<Rightarrow>
     'a state \<Rightarrow> error + 'a state" where
  "process_loop_with_setGain control this g in_buffer out_buffer i samples_count s =
     (if i < samples_count
      then ebind (case control i of None \<Rightarrow> Inr s | Some v \<Rightarrow> setGain v this s) (\<lambda>s'.
             process_loop_with_setGain control this g in_buffer out_buffer (i + 1) samples_count
               (s'\<lparr>samples := (samples s')(out_buffer + unat i :=
                      samples s' (out_buffer + unat i) + g * samples s' (in_buffer + unat i))\<rparr>))
      else Inr s)"
  by pat_completeness auto
termination
proof (relation "measure (\<lambda>(control, this, g, in_buffer, out_buffer, i, samples_count, s).
                   unat samples_count - unat i)")
  fix control :: "32 word \<Rightarrow> 'a option" and this :: nat and g :: 'a and in_buffer out_buffer :: nat
    and i samples_count :: "32 word" and s x :: "'a state"
  assume less: "i < samples_count"
  then have "unat i < unat samples_count" by (simp add: word_less_nat_alt)
  moreover have "unat samples_count < 2 ^ 32"
    using unsigned_less [of samples_count, where ?'a = nat] by simp
  ultimately have "unat i + unat (1 :: 32 word) < 2 ^ LENGTH(32)" by simp
  then have "unat (i + 1) = unat i + unat (1 :: 32 word)" by (simp only: unat_add_lem [THEN iffD1])
  with \<open>unat i < unat samples_count\<close>
  show "((control, this, g, in_buffer, out_buffer, i + 1, samples_count,
          x\<lparr>samples := (samples x)(out_buffer + unat i :=
                 samples x (out_buffer + unat i) + g * samples x (in_buffer + unat i))\<rparr>),
         (control, this, g, in_buffer, out_buffer, i, samples_count, s))
        \<in> measure (\<lambda>(control, this, g, in_buffer, out_buffer, i, samples_count, s).
                   unat samples_count - unat i)"
    by simp
qed simp

declare process_loop_with_setGain.simps [simp del]
declare process_loop.simps [simp del]
declare fill.simps [simp del]

definition MatrixPoint_process_with_setGain ::
  "(32 word \<Rightarrow> 'a option) \<Rightarrow> 32 word \<Rightarrow> nat \<Rightarrow> 'a::{plus,times} state \<Rightarrow> error + 'a state" where
  "MatrixPoint_process_with_setGain control samples_count this s =
     ebind (deref (points s) this) (\<lambda>m.
     ebind (deref (input_ports s) (input_ptr m)) (\<lambda>ip.
     ebind (Port_buffer ip) (\<lambda>in_buffer.
     ebind (deref (output_ports s) (output_ptr m)) (\<lambda>op.
     ebind (Port_buffer op) (\<lambda>out_buffer.
     process_loop_with_setGain control this (gain m) in_buffer out_buffer 0 samples_count s)))))"

subsection \<open>struct Dsp\<close>

record dsp =
  inputs :: "nat list"
  outputs :: "nat list"
  matrix_points :: "nat list"

text \<open>A range-based \<open>for\<close> over a vector of pointers; a failure ends the run.\<close>

fun foreach :: "('x \<Rightarrow> 's \<Rightarrow> error + 's) \<Rightarrow> 'x list \<Rightarrow> 's \<Rightarrow> error + 's" where
  "foreach f [] s = Inr s"
| "foreach f (x # xs) s = ebind (f x s) (foreach f xs)"

definition refresh_input :: "(nat \<Rightarrow> 32 word \<Rightarrow> nat) \<Rightarrow> 32 word \<Rightarrow> nat \<Rightarrow> 'a state \<Rightarrow> error + 'a state" where
  "refresh_input jack nframes a s =
     ebind (deref (input_ports s) a)
       (\<lambda>p. Inr (s\<lparr>input_ports := (input_ports s)(a \<mapsto> updateBufferAddress jack nframes p)\<rparr>))"

definition refresh_output ::
  "(nat \<Rightarrow> 32 word \<Rightarrow> nat) \<Rightarrow> 32 word \<Rightarrow> nat \<Rightarrow> 'a::zero state \<Rightarrow> error + 'a state" where
  "refresh_output jack nframes a s =
     ebind (deref (output_ports s) a) (\<lambda>p.
     ebind (resetBuffer nframes (updateBufferAddress jack nframes p) (samples s)) (\<lambda>m.
     Inr (s\<lparr>output_ports := (output_ports s)(a \<mapsto> updateBufferAddress jack nframes p),
            samples := m\<rparr>)))"

definition Dsp_process ::
  "(nat \<Rightarrow> 32 word \<Rightarrow> nat) \<Rightarrow> 32 word \<Rightarrow> dsp \<Rightarrow> 'a::{zero,plus,times} state \<Rightarrow> error + 'a state" where
  "Dsp_process jack nframes d s =
     ebind (foreach (refresh_input jack nframes) (inputs d) s) (\<lambda>s1.
     ebind (foreach (refresh_output jack nframes) (outputs d) s1) (\<lambda>s2.
     foreach (MatrixPoint_process nframes) (matrix_points d) s2))"

definition refAll :: "dsp \<Rightarrow> 'a state \<Rightarrow> error + 'a state" where
  "refAll d s =
     ebind (foreach input_incrementUsers (inputs d) s) (\<lambda>s1.
     ebind (foreach output_incrementUsers (outputs d) s1) (\<lambda>s2.
     foreach point_incrementUsers (matrix_points d) s2))"

definition unrefAll :: "dsp \<Rightarrow> 'a state \<Rightarrow> error + dsp \<times> 'a state" where
  "unrefAll d s =
     ebind (foreach input_decrementUsers (inputs d) s) (\<lambda>s1.
     ebind (foreach output_decrementUsers (outputs d) s1) (\<lambda>s2.
     ebind (foreach point_decrementUsers (matrix_points d) s2) (\<lambda>s3.
     Inr (d\<lparr>inputs := [], outputs := [], matrix_points := []\<rparr>, s3))))"

subsection \<open>Buffers that do not overlap\<close>

text \<open>Two buffers of \<open>n\<close> samples at the addresses \<open>b1\<close> and \<open>b2\<close> share no sample.\<close>

definition separate :: "nat \<Rightarrow> nat \<Rightarrow> 32 word \<Rightarrow> bool" where
  "separate b1 b2 n \<longleftrightarrow> b1 + unat n \<le> b2 \<or> b2 + unat n \<le> b1"

subsection \<open>What a matrix point refers to\<close>

text \<open>
  The object behind the pointer \<open>m\<close>, and the cached buffer addresses of the two ports it
  points to. They are read off a store in which the pointers are valid (\<open>the\<close> of a lookup
  that succeeds).
\<close>

definition point_of :: "'a state \<Rightarrow> nat \<Rightarrow> 'a matrix_point" where
  "point_of s m = the (points s m)"

definition in_buffer_of :: "'a state \<Rightarrow> nat \<Rightarrow> nat" where
  "in_buffer_of s m = buffer (the (input_ports s (input_ptr (point_of s m))))"

definition out_buffer_of :: "'a state \<Rightarrow> nat \<Rightarrow> nat" where
  "out_buffer_of s m = buffer (the (output_ports s (output_ptr (point_of s m))))"

text \<open>The address of the buffer that the backend gives to the input port of \<open>m\<close> in this block.\<close>

definition block_in_buffer :: "(nat \<Rightarrow> 32 word \<Rightarrow> nat) \<Rightarrow> 32 word \<Rightarrow> 'a state \<Rightarrow> nat \<Rightarrow> nat" where
  "block_in_buffer jack n s m = jack (jack_port (the (input_ports s (input_ptr (point_of s m))))) n"

subsection \<open>What is asked of the graph and of the backend\<close>

text \<open>
  Every matrix point of the graph points to ports of the graph; the backend's buffers of
  two distinct output ports do not overlap; the backend's buffer of an input port
  overlaps no buffer of an output port.
\<close>

definition points_in_graph :: "dsp \<Rightarrow> 'a state \<Rightarrow> bool" where
  "points_in_graph d s \<longleftrightarrow>
     (\<forall>m\<in>set (matrix_points d). \<forall>pt. points s m = Some pt \<longrightarrow>
        input_ptr pt \<in> set (inputs d) \<and> output_ptr pt \<in> set (outputs d))"

definition outputs_separate :: "(nat \<Rightarrow> 32 word \<Rightarrow> nat) \<Rightarrow> 32 word \<Rightarrow> dsp \<Rightarrow> 'a state \<Rightarrow> bool" where
  "outputs_separate jack n d s \<longleftrightarrow>
     (\<forall>o1\<in>set (outputs d). \<forall>o2\<in>set (outputs d). \<forall>p1 p2.
        o1 \<noteq> o2 \<longrightarrow> output_ports s o1 = Some p1 \<longrightarrow> output_ports s o2 = Some p2 \<longrightarrow>
        separate (jack (jack_port p1) n) (jack (jack_port p2) n) n)"

definition inputs_separate :: "(nat \<Rightarrow> 32 word \<Rightarrow> nat) \<Rightarrow> 32 word \<Rightarrow> dsp \<Rightarrow> 'a state \<Rightarrow> bool" where
  "inputs_separate jack n d s \<longleftrightarrow>
     (\<forall>a\<in>set (inputs d). \<forall>b\<in>set (outputs d). \<forall>p q.
        input_ports s a = Some p \<longrightarrow> output_ports s b = Some q \<longrightarrow>
        separate (jack (jack_port p) n) (jack (jack_port q) n) n)"

text \<open>The addresses that the second loop of \<open>Dsp::process\<close> fills with zero.\<close>

definition zeroed :: "(nat \<Rightarrow> 32 word \<Rightarrow> nat) \<Rightarrow> 32 word \<Rightarrow> (nat \<rightharpoonup> port) \<Rightarrow> nat list \<Rightarrow> nat set" where
  "zeroed jack n ports xs =
     {x. \<exists>a\<in>set xs. \<exists>p. ports a = Some p \<and> jack (jack_port p) n \<le> x \<and> x < jack (jack_port p) n + unat n}"

subsection \<open>Sequences of constructor and destructor calls\<close>

text \<open>
  A constructor runs on storage that holds no live object: a call whose \<open>this\<close> is null
  or the address of a live matrix point is not a run of the program, and the sequence
  stops with \<open>Storage_In_Use\<close>.
\<close>

datatype 'a node_call =
  Construct nat nat nat 'a | Copy_Construct nat nat | Move_Construct nat nat | Destroy nat

fun call_node :: "'a node_call \<Rightarrow> 'a state \<Rightarrow> error + 'a state" where
  "call_node (Construct this inp outp g) s =
     (if this = 0 \<or> points s this \<noteq> None then Inl Storage_In_Use
      else MatrixPoint_new this inp outp g s)"
| "call_node (Copy_Construct this copyfrom) s =
     (if this = 0 \<or> points s this \<noteq> None then Inl Storage_In_Use
      else MatrixPoint_copy this copyfrom s)"
| "call_node (Move_Construct this movefrom) s =
     (if this = 0 \<or> points s this \<noteq> None then Inl Storage_In_Use
      else MatrixPoint_move this movefrom s)"
| "call_node (Destroy this) s = MatrixPoint_delete this s"

subsection \<open>Who refers to a port\<close>

text \<open>
  The live matrix points are the ones in the store. \<open>counts_ok\<close> says that the counter
  of every port is the number of live matrix points whose pointer is the port, plus the
  number of times the graph has pinned the port (\<open>refAll\<close>), in the arithmetic of
  \<open>unsigned int\<close>.
\<close>

definition input_referents :: "'a state \<Rightarrow> nat \<Rightarrow> nat set" where
  "input_referents s a = {m. \<exists>p. points s m = Some p \<and> input_ptr p = a}"

definition output_referents :: "'a state \<Rightarrow> nat \<Rightarrow> nat set" where
  "output_referents s a = {m. \<exists>p. points s m = Some p \<and> output_ptr p = a}"

definition counts_ok :: "(nat \<Rightarrow> nat) \<Rightarrow> (nat \<Rightarrow> nat) \<Rightarrow> 'a state \<Rightarrow> bool" where
  "counts_ok pins_in pins_out s \<longleftrightarrow>
     finite (dom (points s)) \<and>
     (\<forall>a p. a \<noteq> 0 \<longrightarrow> input_ports s a = Some p \<longrightarrow>
        users_count p = of_nat (card (input_referents s a) + pins_in a)) \<and>
     (\<forall>a p. a \<noteq> 0 \<longrightarrow> output_ports s a = Some p \<longrightarrow>
        users_count p = of_nat (card (output_referents s a) + pins_out a))"

subsection \<open>A backend for the examples\<close>

text \<open>
  The examples need some backend: this one lays the buffers of the ports out one after
  another from the address \<open>base\<close>, each \<open>nframes\<close> samples long.
\<close>

definition jack_linear :: "nat \<Rightarrow> nat \<Rightarrow> 32 word \<Rightarrow> nat" where
  "jack_linear base port_token nframes = base + port_token * unat nframes"

text \<open>
  A graph for the examples: the inputs A and B, the outputs O and P, a matrix point from A
  to O with gain 1 and one from B to O with gain 2; nothing is sent to P. The sample memory
  holds a block of A at 16, of B at 18, and what the last block left in O at 20 and in P
  at 22. The samples of the examples are integers.
\<close>

definition example_state :: "int state" where
  "example_state =
     \<lparr>input_ports = [1 \<mapsto> \<lparr>users_count = 1, jack_port = 0, name = ''A'', buffer = 0\<rparr>,
                     2 \<mapsto> \<lparr>users_count = 1, jack_port = 1, name = ''B'', buffer = 0\<rparr>],
      output_ports = [3 \<mapsto> \<lparr>users_count = 2, jack_port = 2, name = ''O'', buffer = 0\<rparr>,
                      4 \<mapsto> \<lparr>users_count = 0, jack_port = 3, name = ''P'', buffer = 0\<rparr>],
      points = [10 \<mapsto> \<lparr>users_count = 0, input_ptr = 1, output_ptr = 3, gain = 1\<rparr>,
                11 \<mapsto> \<lparr>users_count = 0, input_ptr = 2, output_ptr = 3, gain = 2\<rparr>],
      samples = (\<lambda>a. 0)(16 := 2, 17 := 2, 18 := 1, 19 := 1, 20 := 99, 21 := 99, 22 := 77, 23 := 77)\<rparr>"

definition example_graph :: dsp where
  "example_graph = \<lparr>inputs = [1, 2], outputs = [3, 4], matrix_points = [10, 11]\<rparr>"

text \<open>One input and one output that nothing connects yet.\<close>

definition empty_state :: "int state" where
  "empty_state =
     \<lparr>input_ports = [1 \<mapsto> \<lparr>users_count = 0, jack_port = 0, name = ''A'', buffer = 0\<rparr>],
      output_ports = [3 \<mapsto> \<lparr>users_count = 0, jack_port = 2, name = ''O'', buffer = 0\<rparr>],
      points = Map.empty,
      samples = (\<lambda>a. 0)(16 := 5, 17 := 7, 20 := 99, 21 := 99)\<rparr>"



section \<open>Properties\<close>

subsection \<open>Results and pointers\<close>

lemma ebind_Inl [simp]: "ebind (Inl e) f = Inl e"
  by (simp add: ebind_def)

lemma ebind_Inr [simp]: "ebind (Inr x) f = f x"
  by (simp add: ebind_def)

lemma ebind_eq_Inr: "ebind m f = Inr y \<longleftrightarrow> (\<exists>x. m = Inr x \<and> f x = Inr y)"
  by (cases m) simp_all

lemma deref_eq_Inr: "deref h a = Inr x \<longleftrightarrow> a \<noteq> 0 \<and> h a = Some x"
  by (simp add: deref_def split: option.splits)

subsection \<open>The usage counter\<close>

lemma run_users_append:
  "run_users (xs @ ys) c = ebind (run_users xs c) (run_users ys)"
  by (induction xs arbitrary: c) (auto simp: ebind_def split: sum.splits)

lemma unat_minus_one_word32:
  fixes w :: "32 word"
  assumes "w \<noteq> 0"
  shows "Suc (unat (w - 1)) = unat w"
proof -
  from assms have "0 < unat w" by (simp add: unat_gt_0)
  moreover from assms have "unat (w - 1) = unat w - 1" by (rule unat_minus_one)
  ultimately show ?thesis by simp
qed

lemma decrementUsers_zero:
  "users_count c = 0 \<Longrightarrow> decrementUsers c = Inl Assertion_Failed"
  by (simp add: decrementUsers_def)

lemma decrementUsers_positive:
  "users_count c \<noteq> 0 \<Longrightarrow>
     decrementUsers c = Inr (c\<lparr>users_count := users_count c - 1\<rparr>) \<and>
     Suc (unat (users_count c - 1)) = unat (users_count c)"
  by (simp add: decrementUsers_def unat_minus_one_word32)

lemma run_users_Decrement:
  assumes run: "run_users (xs @ Decrement # ys) c = Inr d"
  shows "\<exists>ci cj. run_users xs c = Inr ci \<and> 0 < unat (users_count ci) \<and>
                 run_users (xs @ [Decrement]) c = Inr cj \<and>
                 unat (users_count cj) + 1 = unat (users_count ci)"
proof -
  from run obtain ci where ci: "run_users xs c = Inr ci"
    by (cases "run_users xs c") (auto simp: run_users_append ebind_def)
  with run have nz: "users_count ci \<noteq> 0"
    by (auto simp: run_users_append ebind_def decrementUsers_def split: if_splits)
  then have "run_users (xs @ [Decrement]) c = Inr (ci\<lparr>users_count := users_count ci - 1\<rparr>)"
    using ci by (simp add: run_users_append ebind_def decrementUsers_def)
  with ci nz show ?thesis
    by (simp add: unat_gt_0 unat_minus_one_word32)
qed

text \<open>
  C6. The counter is an unsigned value, so it is never negative. \<open>decrementUsers\<close> on a
  zero counter fails its assertion; on a positive counter it succeeds and the counter
  goes down by exactly one. In a sequence of calls that runs to its end, every
  \<open>decrementUsers\<close> found the counter positive and lowered it by one without wrapping.
\<close>

theorem decrementUsers_no_underflow:
  fixes c :: "'r count_users_scheme"
  shows "0 \<le> uint (users_count c) \<and>
    (users_count c = 0 \<longrightarrow> decrementUsers c = Inl Assertion_Failed) \<and>
    (0 < unat (users_count c) \<longrightarrow>
       (\<exists>c'. decrementUsers c = Inr c' \<and> unat (users_count c') + 1 = unat (users_count c))) \<and>
    (\<forall>xs ys d. run_users (xs @ Decrement # ys) c = Inr d \<longrightarrow>
       (\<exists>ci cj. run_users xs c = Inr ci \<and> 0 < unat (users_count ci) \<and>
                run_users (xs @ [Decrement]) c = Inr cj \<and>
                unat (users_count cj) + 1 = unat (users_count ci)))"
proof (intro conjI impI allI)
  show "0 \<le> uint (users_count c)" by simp
next
  assume "users_count c = 0"
  then show "decrementUsers c = Inl Assertion_Failed" by (rule decrementUsers_zero)
next
  assume "0 < unat (users_count c)"
  then have "users_count c \<noteq> 0" by (simp add: unat_gt_0)
  from decrementUsers_positive [OF this]
  show "\<exists>c'. decrementUsers c = Inr c' \<and> unat (users_count c') + 1 = unat (users_count c)"
    by simp
next
  fix xs ys d
  assume "run_users (xs @ Decrement # ys) c = Inr d"
  then show "\<exists>ci cj. run_users xs c = Inr ci \<and> 0 < unat (users_count ci) \<and>
                run_users (xs @ [Decrement]) c = Inr cj \<and>
                unat (users_count cj) + 1 = unat (users_count ci)"
    by (rule run_users_Decrement)
qed

theorem decrementUsers_no_underflow_witness:
  "decrementUsers \<lparr>users_count = 0\<rparr> = Inl Assertion_Failed \<and>
   0 < unat (users_count \<lparr>users_count = 2\<rparr>) \<and>
   (\<exists>c'. decrementUsers \<lparr>users_count = 2\<rparr> = Inr c' \<and>
         unat (users_count c') + 1 = unat (users_count \<lparr>users_count = 2\<rparr>)) \<and>
   run_users ([Increment] @ Decrement # [Decrement]) \<lparr>users_count = 1\<rparr> = Inr \<lparr>users_count = 0\<rparr> \<and>
   (\<exists>ci cj. run_users [Increment] \<lparr>users_count = 1\<rparr> = Inr ci \<and> 0 < unat (users_count ci) \<and>
            run_users ([Increment] @ [Decrement]) \<lparr>users_count = 1\<rparr> = Inr cj \<and>
            unat (users_count cj) + 1 = unat (users_count ci))"
proof -
  have z: "users_count \<lparr>users_count = 0\<rparr> = 0" by simp
  have p: "0 < unat (users_count \<lparr>users_count = 2\<rparr>)" by simp
  have r: "run_users ([Increment] @ Decrement # [Decrement]) \<lparr>users_count = 1\<rparr>
             = Inr \<lparr>users_count = 0\<rparr>"
    by (simp add: ebind_def incrementUsers_def decrementUsers_def)
  from decrementUsers_no_underflow [of "\<lparr>users_count = 0\<rparr>"] z
  have 1: "decrementUsers \<lparr>users_count = 0\<rparr> = Inl Assertion_Failed" by blast
  from decrementUsers_no_underflow [of "\<lparr>users_count = 2\<rparr>"] p
  have 2: "\<exists>c'. decrementUsers \<lparr>users_count = 2\<rparr> = Inr c' \<and>
         unat (users_count c') + 1 = unat (users_count \<lparr>users_count = 2\<rparr>)" by blast
  from decrementUsers_no_underflow [of "\<lparr>users_count = 1\<rparr>"] r
  have 3: "\<exists>ci cj. run_users [Increment] \<lparr>users_count = 1\<rparr> = Inr ci \<and> 0 < unat (users_count ci) \<and>
            run_users ([Increment] @ [Decrement]) \<lparr>users_count = 1\<rparr> = Inr cj \<and>
            unat (users_count cj) + 1 = unat (users_count ci)" by blast
  from 1 p 2 r 3 show ?thesis by blast
qed

subsection \<open>The cached buffer pointer\<close>

text \<open>
  C7, as stated, does not hold. A port keeps no record of the block in which its pointer
  was refreshed, and \<open>assert(buffer_)\<close> only tells a null pointer from a non-null one.
  Below, the first block's refresh leaves the port with the pointer 4096; when the next
  block starts nothing has touched the port, and \<open>buffer()\<close> before that block's refresh
  hands out 4096 without any failure, although the backend's pointer for the block is 8192.
\<close>

theorem buffer_before_refresh_counterexample:
  "updateBufferAddress (jack_linear 4096) 64
       \<lparr>users_count = 0, jack_port = 0, name = ''in'', buffer = 0\<rparr>
     = \<lparr>users_count = 0, jack_port = 0, name = ''in'', buffer = 4096\<rparr> \<and>
   Port_buffer \<lparr>users_count = 0, jack_port = 0, name = ''in'', buffer = 4096\<rparr> = Inr 4096 \<and>
   Port_buffer \<lparr>users_count = 0, jack_port = 0, name = ''in'', buffer = 4096\<rparr>
     \<noteq> Inl Assertion_Failed \<and>
   Port_buffer (updateBufferAddress (jack_linear 8192) 64
       \<lparr>users_count = 0, jack_port = 0, name = ''in'', buffer = 4096\<rparr>) = Inr 8192"
  by (simp add: Port_buffer_def updateBufferAddress_def jack_linear_def)

text \<open>
  C7, amended. \<open>buffer()\<close> fails its assertion exactly when the cached pointer is null,
  and returns the cached pointer otherwise, whichever block it was cached in. Right after
  \<open>updateBufferAddress(n)\<close> the cached pointer is the one the backend gave for this
  block: \<open>buffer()\<close> returns it if it is not null and fails the assertion if it is.
\<close>

theorem Port_buffer_cached:
  "Port_buffer p = (if buffer p = 0 then Inl Assertion_Failed else Inr (buffer p)) \<and>
   Port_buffer (updateBufferAddress jack n p)
     = (if jack (jack_port p) n = 0 then Inl Assertion_Failed else Inr (jack (jack_port p) n))"
  by (simp add: Port_buffer_def updateBufferAddress_def)

subsection \<open>Counting the referents of a port\<close>

lemma input_incrementUsers_Inr:
  "input_incrementUsers a s = Inr s' \<longleftrightarrow>
     (\<exists>p. a \<noteq> 0 \<and> input_ports s a = Some p \<and>
          s' = s\<lparr>input_ports := (input_ports s)(a \<mapsto> incrementUsers p)\<rparr>)"
  by (auto simp: input_incrementUsers_def ebind_eq_Inr deref_eq_Inr)

lemma output_incrementUsers_Inr:
  "output_incrementUsers a s = Inr s' \<longleftrightarrow>
     (\<exists>p. a \<noteq> 0 \<and> output_ports s a = Some p \<and>
          s' = s\<lparr>output_ports := (output_ports s)(a \<mapsto> incrementUsers p)\<rparr>)"
  by (auto simp: output_incrementUsers_def ebind_eq_Inr deref_eq_Inr)

lemma decrementUsers_Inr:
  "decrementUsers p = Inr p' \<longleftrightarrow> users_count p \<noteq> 0 \<and> p' = p\<lparr>users_count := users_count p - 1\<rparr>"
  by (auto simp: decrementUsers_def)

lemma input_decrementUsers_Inr:
  "input_decrementUsers a s = Inr s' \<longleftrightarrow>
     (\<exists>p. a \<noteq> 0 \<and> input_ports s a = Some p \<and> users_count p \<noteq> 0 \<and>
          s' = s\<lparr>input_ports := (input_ports s)(a \<mapsto> p\<lparr>users_count := users_count p - 1\<rparr>)\<rparr>)"
  by (auto simp: input_decrementUsers_def ebind_eq_Inr deref_eq_Inr decrementUsers_Inr)

lemma output_decrementUsers_Inr:
  "output_decrementUsers a s = Inr s' \<longleftrightarrow>
     (\<exists>p. a \<noteq> 0 \<and> output_ports s a = Some p \<and> users_count p \<noteq> 0 \<and>
          s' = s\<lparr>output_ports := (output_ports s)(a \<mapsto> p\<lparr>users_count := users_count p - 1\<rparr>)\<rparr>)"
  by (auto simp: output_decrementUsers_def ebind_eq_Inr deref_eq_Inr decrementUsers_Inr)

lemma MatrixPoint_new_Inr:
  "MatrixPoint_new this i o' g s = Inr s' \<longleftrightarrow>
     (\<exists>ip op. i \<noteq> 0 \<and> o' \<noteq> 0 \<and> input_ports s i = Some ip \<and> output_ports s o' = Some op \<and>
        s' = s\<lparr>points := (points s)(this \<mapsto> \<lparr>users_count = 0, input_ptr = i, output_ptr = o', gain = g\<rparr>),
               input_ports := (input_ports s)(i \<mapsto> incrementUsers ip),
               output_ports := (output_ports s)(o' \<mapsto> incrementUsers op)\<rparr>)"
  by (auto simp: MatrixPoint_new_def ebind_eq_Inr input_incrementUsers_Inr output_incrementUsers_Inr)

lemma MatrixPoint_copy_Inr:
  "MatrixPoint_copy this c s = Inr s' \<longleftrightarrow>
     (\<exists>pt ip op. c \<noteq> 0 \<and> points s c = Some pt \<and> input_ptr pt \<noteq> 0 \<and> output_ptr pt \<noteq> 0 \<and>
        input_ports s (input_ptr pt) = Some ip \<and> output_ports s (output_ptr pt) = Some op \<and>
        s' = s\<lparr>points := (points s)(this \<mapsto>
                 \<lparr>users_count = 0, input_ptr = input_ptr pt, output_ptr = output_ptr pt, gain = gain pt\<rparr>),
               input_ports := (input_ports s)(input_ptr pt \<mapsto> incrementUsers ip),
               output_ports := (output_ports s)(output_ptr pt \<mapsto> incrementUsers op)\<rparr>)"
  by (auto simp: MatrixPoint_copy_def ebind_eq_Inr deref_eq_Inr input_incrementUsers_Inr output_incrementUsers_Inr)

lemma MatrixPoint_move_Inr:
  "MatrixPoint_move this m s = Inr s' \<longleftrightarrow>
     (\<exists>pt. m \<noteq> 0 \<and> points s m = Some pt \<and>
        s' = s\<lparr>points := (points s)
                 (this \<mapsto> \<lparr>users_count = 0, input_ptr = input_ptr pt, output_ptr = output_ptr pt, gain = gain pt\<rparr>,
                  m \<mapsto> pt\<lparr>input_ptr := 0, output_ptr := 0\<rparr>)\<rparr>)"
  by (auto simp: MatrixPoint_move_def ebind_eq_Inr deref_eq_Inr)


lemma finite_referents:
  assumes "finite (dom (points s))"
  shows "finite (input_referents s a)" and "finite (output_referents s a)"
proof -
  have "input_referents s a \<subseteq> dom (points s)" "output_referents s a \<subseteq> dom (points s)"
    by (auto simp: input_referents_def output_referents_def)
  with assms show "finite (input_referents s a)" and "finite (output_referents s a)"
    by (auto intro: finite_subset)
qed

lemma referents_ports_upd [simp]:
  "input_referents (s\<lparr>input_ports := I\<rparr>) = input_referents s"
  "input_referents (s\<lparr>output_ports := O'\<rparr>) = input_referents s"
  "output_referents (s\<lparr>input_ports := I\<rparr>) = output_referents s"
  "output_referents (s\<lparr>output_ports := O'\<rparr>) = output_referents s"
  by (simp_all add: input_referents_def output_referents_def fun_eq_iff)

lemma referents_add:
  assumes "points s this = None"
  shows "input_referents (s\<lparr>points := (points s)(this \<mapsto> pt)\<rparr>) a
           = (if input_ptr pt = a then insert this (input_referents s a) else input_referents s a)"
    and "output_referents (s\<lparr>points := (points s)(this \<mapsto> pt)\<rparr>) a
           = (if output_ptr pt = a then insert this (output_referents s a) else output_referents s a)"
  using assms by (auto simp: input_referents_def output_referents_def)

lemma card_referents_add:
  assumes "points s this = None" and "finite (dom (points s))"
  shows "card (input_referents (s\<lparr>points := (points s)(this \<mapsto> pt)\<rparr>) a)
           = (if input_ptr pt = a then Suc (card (input_referents s a)) else card (input_referents s a))"
    and "card (output_referents (s\<lparr>points := (points s)(this \<mapsto> pt)\<rparr>) a)
           = (if output_ptr pt = a then Suc (card (output_referents s a)) else card (output_referents s a))"
proof -
  from assms(1) have "this \<notin> input_referents s a" "this \<notin> output_referents s a"
    by (auto simp: input_referents_def output_referents_def)
  with assms finite_referents [OF assms(2)]
  show "card (input_referents (s\<lparr>points := (points s)(this \<mapsto> pt)\<rparr>) a)
           = (if input_ptr pt = a then Suc (card (input_referents s a)) else card (input_referents s a))"
    and "card (output_referents (s\<lparr>points := (points s)(this \<mapsto> pt)\<rparr>) a)
           = (if output_ptr pt = a then Suc (card (output_referents s a)) else card (output_referents s a))"
    by (simp_all add: referents_add)
qed

lemma card_referents_remove:
  assumes "points s this = Some pt" and "finite (dom (points s))"
  shows "card (input_referents s a)
           = (if input_ptr pt = a then Suc (card (input_referents (s\<lparr>points := (points s)(this := None)\<rparr>) a))
              else card (input_referents (s\<lparr>points := (points s)(this := None)\<rparr>) a))"
    and "card (output_referents s a)
           = (if output_ptr pt = a then Suc (card (output_referents (s\<lparr>points := (points s)(this := None)\<rparr>) a))
              else card (output_referents (s\<lparr>points := (points s)(this := None)\<rparr>) a))"
proof -
  let ?s = "s\<lparr>points := (points s)(this := None)\<rparr>"
  have none: "points ?s this = None" and fin: "finite (dom (points ?s))"
    using assms(2) by simp_all
  have restore: "?s\<lparr>points := (points ?s)(this \<mapsto> pt)\<rparr> = s"
    using assms(1) by (simp add: fun_upd_idem)
  from card_referents_add [OF none fin, of pt a]
  show "card (input_referents s a)
           = (if input_ptr pt = a then Suc (card (input_referents ?s a))
              else card (input_referents ?s a))"
    and "card (output_referents s a)
           = (if output_ptr pt = a then Suc (card (output_referents ?s a))
              else card (output_referents ?s a))"
    unfolding restore by simp_all
qed

lemma counts_ok_new:
  assumes ok: "counts_ok pins_in pins_out s"
    and fresh: "points s this = None"
    and new: "MatrixPoint_new this i o' g s = Inr s'"
  shows "counts_ok pins_in pins_out s'"
proof -
  from new obtain ip op where s': "i \<noteq> 0" "o' \<noteq> 0" "input_ports s i = Some ip" "output_ports s o' = Some op"
    "s' = s\<lparr>points := (points s)(this \<mapsto> \<lparr>users_count = 0, input_ptr = i, output_ptr = o', gain = g\<rparr>),
               input_ports := (input_ports s)(i \<mapsto> incrementUsers ip),
               output_ports := (output_ports s)(o' \<mapsto> incrementUsers op)\<rparr>"
    unfolding MatrixPoint_new_Inr by blast
  from ok have fin: "finite (dom (points s))" by (simp add: counts_ok_def)
  show ?thesis
    using ok s'(3,4) unfolding counts_ok_def s'(5)
    by (auto simp: card_referents_add [OF fresh fin] incrementUsers_def)
qed


lemma counts_ok_copy:
  assumes ok: "counts_ok pins_in pins_out s"
    and fresh: "points s this = None"
    and copy: "MatrixPoint_copy this c s = Inr s'"
  shows "counts_ok pins_in pins_out s'"
proof -
  from copy obtain pt ip op where live: "points s c = Some pt"
    and s': "input_ptr pt \<noteq> 0" "output_ptr pt \<noteq> 0"
    "input_ports s (input_ptr pt) = Some ip" "output_ports s (output_ptr pt) = Some op"
    "s' = s\<lparr>points := (points s)(this \<mapsto>
                 \<lparr>users_count = 0, input_ptr = input_ptr pt, output_ptr = output_ptr pt, gain = gain pt\<rparr>),
               input_ports := (input_ports s)(input_ptr pt \<mapsto> incrementUsers ip),
               output_ports := (output_ports s)(output_ptr pt \<mapsto> incrementUsers op)\<rparr>"
    unfolding MatrixPoint_copy_Inr by blast
  from ok have fin: "finite (dom (points s))" by (simp add: counts_ok_def)
  show ?thesis
    using ok s'(3,4) unfolding counts_ok_def s'(5)
    by (auto simp: card_referents_add [OF fresh fin] incrementUsers_def)
qed

lemma card_referents_move:
  assumes fresh: "points s this = None" and live: "points s m = Some pt"
    and fin: "finite (dom (points s))" and a: "a \<noteq> 0"
  defines "s' \<equiv> s\<lparr>points := (points s)
                 (this \<mapsto> \<lparr>users_count = 0, input_ptr = input_ptr pt, output_ptr = output_ptr pt, gain = gain pt\<rparr>,
                  m \<mapsto> pt\<lparr>input_ptr := 0, output_ptr := 0\<rparr>)\<rparr>"
  shows "card (input_referents s' a) = card (input_referents s a)"
    and "card (output_referents s' a) = card (output_referents s a)"
proof -
  from fresh live have ne: "this \<noteq> m" by auto
  have fin': "finite (input_referents s a)" "finite (output_referents s a)"
    using finite_referents [OF fin] by simp_all
  have nin: "this \<notin> input_referents s a" "this \<notin> output_referents s a"
    using fresh by (auto simp: input_referents_def output_referents_def)
  have i: "input_referents s' a
             = (if input_ptr pt = a then insert this (input_referents s a - {m}) else input_referents s a)"
    using ne a live fresh by (auto simp: input_referents_def s'_def)
  have o: "output_referents s' a
             = (if output_ptr pt = a then insert this (output_referents s a - {m}) else output_referents s a)"
    using ne a live fresh by (auto simp: output_referents_def s'_def)
  have mi: "input_ptr pt = a \<Longrightarrow> m \<in> input_referents s a"
    and mo: "output_ptr pt = a \<Longrightarrow> m \<in> output_referents s a"
    using live by (auto simp: input_referents_def output_referents_def)
  show "card (input_referents s' a) = card (input_referents s a)"
  proof (cases "input_ptr pt = a")
    case True
    with mi fin'(1) have "0 < card (input_referents s a)" by (auto simp: card_gt_0_iff)
    with True mi fin'(1) nin(1) show ?thesis by (simp add: i)
  next
    case False
    then show ?thesis by (simp add: i)
  qed
  show "card (output_referents s' a) = card (output_referents s a)"
  proof (cases "output_ptr pt = a")
    case True
    with mo fin'(2) have "0 < card (output_referents s a)" by (auto simp: card_gt_0_iff)
    with True mo fin'(2) nin(2) show ?thesis by (simp add: o)
  next
    case False
    then show ?thesis by (simp add: o)
  qed
qed

lemma counts_ok_move:
  assumes ok: "counts_ok pins_in pins_out s"
    and fresh: "points s this = None"
    and move: "MatrixPoint_move this m s = Inr s'"
  shows "counts_ok pins_in pins_out s'"
proof -
  from move obtain pt where live: "points s m = Some pt" and
    s': "s' = s\<lparr>points := (points s)
                 (this \<mapsto> \<lparr>users_count = 0, input_ptr = input_ptr pt, output_ptr = output_ptr pt, gain = gain pt\<rparr>,
                  m \<mapsto> pt\<lparr>input_ptr := 0, output_ptr := 0\<rparr>)\<rparr>"
    unfolding MatrixPoint_move_Inr by blast
  from ok have fin: "finite (dom (points s))" by (simp add: counts_ok_def)
  have "finite (dom (points s'))" using fin by (simp add: s')
  moreover have "input_ports s' = input_ports s" "output_ports s' = output_ports s"
    by (simp_all add: s')
  ultimately show ?thesis
    using ok card_referents_move [OF fresh live fin] unfolding counts_ok_def s' by simp
qed

lemma MatrixPoint_delete_Inr:
  assumes "MatrixPoint_delete this s = Inr s'"
  shows "\<exists>pt s1 s2. this \<noteq> 0 \<and> points s this = Some pt \<and>
        (if input_ptr pt \<noteq> 0 then input_decrementUsers (input_ptr pt) s = Inr s1 else s1 = s) \<and>
        (if output_ptr pt \<noteq> 0 then output_decrementUsers (output_ptr pt) s1 = Inr s2 else s2 = s1) \<and>
        s' = s2\<lparr>points := (points s2)(this := None)\<rparr>"
proof -
  from assms obtain pt where pt: "this \<noteq> 0" "points s this = Some pt"
    and 1: "ebind (if input_ptr pt \<noteq> 0 then input_decrementUsers (input_ptr pt) s else Inr s) (\<lambda>s1.
            ebind (if output_ptr pt \<noteq> 0 then output_decrementUsers (output_ptr pt) s1 else Inr s1) (\<lambda>s2.
            Inr (s2\<lparr>points := (points s2)(this := None)\<rparr>))) = Inr s'"
    unfolding MatrixPoint_delete_def ebind_eq_Inr deref_eq_Inr by blast
  from 1 obtain s1 where s1: "(if input_ptr pt \<noteq> 0 then input_decrementUsers (input_ptr pt) s else Inr s) = Inr s1"
    and 2: "ebind (if output_ptr pt \<noteq> 0 then output_decrementUsers (output_ptr pt) s1 else Inr s1) (\<lambda>s2.
            Inr (s2\<lparr>points := (points s2)(this := None)\<rparr>)) = Inr s'"
    unfolding ebind_eq_Inr [of "if input_ptr pt \<noteq> 0 then input_decrementUsers (input_ptr pt) s else Inr s"]
    by blast
  from 2 obtain s2 where s2: "(if output_ptr pt \<noteq> 0 then output_decrementUsers (output_ptr pt) s1 else Inr s1) = Inr s2"
    and 3: "s' = s2\<lparr>points := (points s2)(this := None)\<rparr>"
    unfolding ebind_eq_Inr by auto
  from s1 have "if input_ptr pt \<noteq> 0 then input_decrementUsers (input_ptr pt) s = Inr s1 else s1 = s"
    by (simp split: if_splits)
  moreover from s2 have "if output_ptr pt \<noteq> 0 then output_decrementUsers (output_ptr pt) s1 = Inr s2 else s2 = s1"
    by (simp split: if_splits)
  ultimately show ?thesis using pt 3 by blast
qed

lemma counts_ok_delete:
  assumes ok: "counts_ok pins_in pins_out s"
    and del: "MatrixPoint_delete this s = Inr s'"
  shows "counts_ok pins_in pins_out s'"
proof -
  from del obtain pt s1 s2 where live: "points s this = Some pt"
    and s1: "if input_ptr pt \<noteq> 0 then input_decrementUsers (input_ptr pt) s = Inr s1 else s1 = s"
    and s2: "if output_ptr pt \<noteq> 0 then output_decrementUsers (output_ptr pt) s1 = Inr s2 else s2 = s1"
    and s': "s' = s2\<lparr>points := (points s2)(this := None)\<rparr>"
    using MatrixPoint_delete_Inr by blast
  from ok have fin: "finite (dom (points s))" by (simp add: counts_ok_def)
  have p1: "points s1 = points s" using s1 by (auto simp: input_decrementUsers_Inr split: if_splits)
  have p2: "points s2 = points s" using s2 p1 by (auto simp: output_decrementUsers_Inr split: if_splits)
  have r: "input_referents s' = input_referents (s\<lparr>points := (points s)(this := None)\<rparr>)"
          "output_referents s' = output_referents (s\<lparr>points := (points s)(this := None)\<rparr>)"
    by (simp_all add: s' p2 input_referents_def output_referents_def fun_eq_iff)
  note c = card_referents_remove [OF live fin]
  have "finite (dom (points s'))" using fin by (simp add: s' p2)
  moreover have "users_count p = of_nat (card (input_referents s' a) + pins_in a)"
    if "a \<noteq> 0" "input_ports s' a = Some p" for a p
  proof (cases "input_ptr pt = a")
    case True
    with that s1 obtain q where q: "input_ports s a = Some q" "users_count q \<noteq> 0"
      "s1 = s\<lparr>input_ports := (input_ports s)(a \<mapsto> q\<lparr>users_count := users_count q - 1\<rparr>)\<rparr>"
      by (auto simp: input_decrementUsers_Inr)
    have "input_ports s' = input_ports s1"
      using s2 by (auto simp: s' output_decrementUsers_Inr split: if_splits)
    with that q have p: "p = q\<lparr>users_count := users_count q - 1\<rparr>" by simp
    from ok that q have "users_count q = of_nat (card (input_referents s a) + pins_in a)"
      by (simp add: counts_ok_def)
    with True show ?thesis by (simp add: p r c(1) [of a])
  next
    case False
    have "input_ports s' a = input_ports s a"
      using s1 s2 False by (auto simp: s' input_decrementUsers_Inr output_decrementUsers_Inr split: if_splits)
    with ok that False show ?thesis by (simp add: counts_ok_def r c(1) [of a])
  qed
  moreover have "users_count p = of_nat (card (output_referents s' a) + pins_out a)"
    if "a \<noteq> 0" "output_ports s' a = Some p" for a p
  proof (cases "output_ptr pt = a")
    case True
    have o1: "output_ports s1 = output_ports s"
      using s1 by (auto simp: input_decrementUsers_Inr split: if_splits)
    with True that s2 obtain q where q: "output_ports s a = Some q" "users_count q \<noteq> 0"
      "s2 = s1\<lparr>output_ports := (output_ports s1)(a \<mapsto> q\<lparr>users_count := users_count q - 1\<rparr>)\<rparr>"
      by (auto simp: output_decrementUsers_Inr)
    with that have p: "p = q\<lparr>users_count := users_count q - 1\<rparr>" by (simp add: s')
    from ok that q have "users_count q = of_nat (card (output_referents s a) + pins_out a)"
      by (simp add: counts_ok_def)
    with True show ?thesis by (simp add: p r c(2) [of a])
  next
    case False
    have "output_ports s' a = output_ports s a"
      using s1 s2 False by (auto simp: s' input_decrementUsers_Inr output_decrementUsers_Inr split: if_splits)
    with ok that False show ?thesis by (simp add: counts_ok_def r c(2) [of a])
  qed
  ultimately show ?thesis by (simp add: counts_ok_def)
qed


lemma counts_ok_call_node:
  assumes "counts_ok pins_in pins_out s" and "call_node c s = Inr s'"
  shows "counts_ok pins_in pins_out s'"
proof (cases c)
  case (Construct this inp outp g)
  with assms show ?thesis by (auto split: if_splits intro: counts_ok_new)
next
  case (Copy_Construct this copyfrom)
  with assms show ?thesis by (auto split: if_splits intro: counts_ok_copy)
next
  case (Move_Construct this movefrom)
  with assms show ?thesis by (auto split: if_splits intro: counts_ok_move)
next
  case (Destroy this)
  with assms show ?thesis by (auto intro: counts_ok_delete)
qed

lemma foreach_invariant:
  assumes step: "\<And>x s s'. P s \<Longrightarrow> f x s = Inr s' \<Longrightarrow> P s'"
  shows "P s \<Longrightarrow> foreach f xs s = Inr s' \<Longrightarrow> P s'"
proof (induction xs arbitrary: s)
  case Nil
  then show ?case by simp
next
  case (Cons x xs)
  from Cons.prems(2) obtain t where t: "f x s = Inr t" "foreach f xs t = Inr s'"
    by (auto simp: ebind_eq_Inr)
  from step [OF Cons.prems(1) t(1)] have "P t" .
  then show ?case using t(2) by (rule Cons.IH)
qed

lemma unat_of_nat_word32: "n < 2 ^ 32 \<Longrightarrow> unat (of_nat n :: 32 word) = n"
  by (simp add: unat_of_nat)

lemma counts_ok_exact:
  assumes ok: "counts_ok pins_in pins_out s" and a: "a \<noteq> 0"
  shows "input_ports s a = Some p \<Longrightarrow> card (input_referents s a) + pins_in a < 2 ^ 32 \<Longrightarrow>
           unat (users_count p) = card (input_referents s a) + pins_in a"
    and "output_ports s a = Some q \<Longrightarrow> card (output_referents s a) + pins_out a < 2 ^ 32 \<Longrightarrow>
           unat (users_count q) = card (output_referents s a) + pins_out a"
proof -
  assume "input_ports s a = Some p" and less: "card (input_referents s a) + pins_in a < 2 ^ 32"
  with ok a have "users_count p = of_nat (card (input_referents s a) + pins_in a)"
    unfolding counts_ok_def by blast
  with less show "unat (users_count p) = card (input_referents s a) + pins_in a"
    by (simp only: unat_of_nat_word32)
next
  assume "output_ports s a = Some q" and less: "card (output_referents s a) + pins_out a < 2 ^ 32"
  with ok a have "users_count q = of_nat (card (output_referents s a) + pins_out a)"
    unfolding counts_ok_def by blast
  with less show "unat (users_count q) = card (output_referents s a) + pins_out a"
    by (simp only: unat_of_nat_word32)
qed

lemma MatrixPoint_new_effect:
  assumes "MatrixPoint_new this i o' g s = Inr s'"
  shows "\<exists>ip op. input_ports s i = Some ip \<and> output_ports s o' = Some op \<and>
           input_ports s' = (input_ports s)(i \<mapsto> ip\<lparr>users_count := users_count ip + 1\<rparr>) \<and>
           output_ports s' = (output_ports s)(o' \<mapsto> op\<lparr>users_count := users_count op + 1\<rparr>)"
  using assms unfolding MatrixPoint_new_Inr incrementUsers_def by auto

lemma MatrixPoint_copy_effect:
  assumes "MatrixPoint_copy this c s = Inr s'"
  shows "\<exists>pt ip op. points s c = Some pt \<and>
           input_ports s (input_ptr pt) = Some ip \<and> output_ports s (output_ptr pt) = Some op \<and>
           input_ports s' = (input_ports s)(input_ptr pt \<mapsto> ip\<lparr>users_count := users_count ip + 1\<rparr>) \<and>
           output_ports s' = (output_ports s)(output_ptr pt \<mapsto> op\<lparr>users_count := users_count op + 1\<rparr>)"
  using assms unfolding MatrixPoint_copy_Inr incrementUsers_def by auto

lemma MatrixPoint_move_effect:
  assumes "MatrixPoint_move this m s = Inr s'"
  shows "\<exists>pt new. points s m = Some pt \<and> points s' this = Some new \<and>
           (this \<noteq> m \<longrightarrow> input_ptr new = input_ptr pt \<and> output_ptr new = output_ptr pt) \<and>
           input_ports s' = input_ports s \<and> output_ports s' = output_ports s"
  using assms unfolding MatrixPoint_move_Inr by auto

lemma MatrixPoint_delete_effect:
  assumes del: "MatrixPoint_delete this s = Inr s'" and live: "points s this = Some pt"
    and refs: "input_ptr pt \<noteq> 0" "output_ptr pt \<noteq> 0"
  shows "\<exists>ip op. input_ports s (input_ptr pt) = Some ip \<and> output_ports s (output_ptr pt) = Some op \<and>
           0 < unat (users_count ip) \<and> 0 < unat (users_count op) \<and>
           input_ports s' = (input_ports s)(input_ptr pt \<mapsto> ip\<lparr>users_count := users_count ip - 1\<rparr>) \<and>
           output_ports s' = (output_ports s)(output_ptr pt \<mapsto> op\<lparr>users_count := users_count op - 1\<rparr>)"
proof -
  from MatrixPoint_delete_Inr [OF del] live refs obtain s1 s2 where
    s1: "input_decrementUsers (input_ptr pt) s = Inr s1"
    and s2: "output_decrementUsers (output_ptr pt) s1 = Inr s2"
    and s': "s' = s2\<lparr>points := (points s2)(this := None)\<rparr>"
    by auto
  from s1 obtain ip where ip: "input_ports s (input_ptr pt) = Some ip" "users_count ip \<noteq> 0"
    "s1 = s\<lparr>input_ports := (input_ports s)(input_ptr pt \<mapsto> ip\<lparr>users_count := users_count ip - 1\<rparr>)\<rparr>"
    unfolding input_decrementUsers_Inr by blast
  from s2 obtain op where op: "output_ports s1 (output_ptr pt) = Some op" "users_count op \<noteq> 0"
    "s2 = s1\<lparr>output_ports := (output_ports s1)(output_ptr pt \<mapsto> op\<lparr>users_count := users_count op - 1\<rparr>)\<rparr>"
    unfolding output_decrementUsers_Inr by blast
  from ip op s' show ?thesis by (simp add: unat_gt_0)
qed

lemma MatrixPoint_delete_null:
  assumes del: "MatrixPoint_delete this s = Inr s'" and live: "points s this = Some pt"
  shows "input_ptr pt = 0 \<Longrightarrow> input_ports s' = input_ports s"
    and "output_ptr pt = 0 \<Longrightarrow> output_ports s' = output_ports s"
proof -
  from MatrixPoint_delete_Inr [OF del] live obtain s1 s2 where
    s1: "if input_ptr pt \<noteq> 0 then input_decrementUsers (input_ptr pt) s = Inr s1 else s1 = s"
    and s2: "if output_ptr pt \<noteq> 0 then output_decrementUsers (output_ptr pt) s1 = Inr s2 else s2 = s1"
    and s': "s' = s2\<lparr>points := (points s2)(this := None)\<rparr>"
    by auto
  have i2: "input_ports s2 = input_ports s1"
    using s2 by (auto simp: output_decrementUsers_Inr split: if_splits)
  have o1: "output_ports s1 = output_ports s"
    using s1 by (auto simp: input_decrementUsers_Inr split: if_splits)
  show "input_ptr pt = 0 \<Longrightarrow> input_ports s' = input_ports s"
    using s1 i2 by (simp add: s')
  show "output_ptr pt = 0 \<Longrightarrow> output_ports s' = output_ports s"
    using s2 o1 by (simp add: s')
qed

lemma move_then_delete:
  assumes move: "MatrixPoint_move this m s = Inr s1" and ne: "this \<noteq> m"
  shows "\<exists>pt s2. points s1 m = Some pt \<and> input_ptr pt = 0 \<and> output_ptr pt = 0 \<and>
           MatrixPoint_delete m s1 = Inr s2 \<and>
           input_ports s2 = input_ports s \<and> output_ports s2 = output_ports s"
proof -
  from move obtain pt where pt: "m \<noteq> 0" "points s m = Some pt"
    and s1: "s1 = s\<lparr>points := (points s)
                 (this \<mapsto> \<lparr>users_count = 0, input_ptr = input_ptr pt, output_ptr = output_ptr pt, gain = gain pt\<rparr>,
                  m \<mapsto> pt\<lparr>input_ptr := 0, output_ptr := 0\<rparr>)\<rparr>"
    unfolding MatrixPoint_move_Inr by blast
  have live: "points s1 m = Some (pt\<lparr>input_ptr := 0, output_ptr := 0\<rparr>)"
    by (simp add: s1)
  have "MatrixPoint_delete m s1 = Inr (s1\<lparr>points := (points s1)(m := None)\<rparr>)"
    using pt(1) live by (simp add: MatrixPoint_delete_def deref_def)
  with live show ?thesis by (simp add: s1)
qed


lemma point_incrementUsers_Inr:
  "point_incrementUsers a s = Inr s' \<longleftrightarrow>
     (\<exists>p. a \<noteq> 0 \<and> points s a = Some p \<and>
          s' = s\<lparr>points := (points s)(a \<mapsto> incrementUsers p)\<rparr>)"
  by (auto simp: point_incrementUsers_def ebind_eq_Inr deref_eq_Inr)

lemma point_decrementUsers_Inr:
  "point_decrementUsers a s = Inr s' \<longleftrightarrow>
     (\<exists>p. a \<noteq> 0 \<and> points s a = Some p \<and> users_count p \<noteq> 0 \<and>
          s' = s\<lparr>points := (points s)(a \<mapsto> p\<lparr>users_count := users_count p - 1\<rparr>)\<rparr>)"
  by (auto simp: point_decrementUsers_def ebind_eq_Inr deref_eq_Inr decrementUsers_Inr)

lemma counts_ok_point_users:
  assumes ok: "counts_ok pins_in pins_out s" and live: "points s a = Some p"
  shows "counts_ok pins_in pins_out (s\<lparr>points := (points s)(a \<mapsto> p\<lparr>users_count := c\<rparr>)\<rparr>)"
proof -
  let ?s = "s\<lparr>points := (points s)(a \<mapsto> p\<lparr>users_count := c\<rparr>)\<rparr>"
  have "(\<exists>q. points ?s m = Some q \<and> input_ptr q = b) = (\<exists>q. points s m = Some q \<and> input_ptr q = b)"
    "(\<exists>q. points ?s m = Some q \<and> output_ptr q = b) = (\<exists>q. points s m = Some q \<and> output_ptr q = b)"
    for m b
    using live by (cases "m = a"; simp)+
  then have refs: "input_referents ?s = input_referents s" "output_referents ?s = output_referents s"
    by (simp_all add: input_referents_def output_referents_def fun_eq_iff)
  have "dom (points ?s) = dom (points s)" using live by auto
  with ok show ?thesis unfolding counts_ok_def refs by simp
qed

lemma counts_ok_input_pin:
  assumes ok: "counts_ok pins_in pins_out s" and call: "input_incrementUsers a s = Inr s'"
  shows "counts_ok (pins_in(a := Suc (pins_in a))) pins_out s'"
proof -
  from call obtain p where p: "input_ports s a = Some p"
    and s': "s' = s\<lparr>input_ports := (input_ports s)(a \<mapsto> incrementUsers p)\<rparr>"
    unfolding input_incrementUsers_Inr by blast
  have same: "input_referents s' = input_referents s" "output_referents s' = output_referents s"
    "points s' = points s" "output_ports s' = output_ports s"
    by (simp_all add: s')
  have here: "input_ports s' b = (if b = a then Some (incrementUsers p) else input_ports s b)" for b
    by (simp add: s')
  from ok have fin: "finite (dom (points s))"
    and old_k: "\<And>b q. b \<noteq> 0 \<Longrightarrow> input_ports s b = Some q \<Longrightarrow>
                 users_count q = of_nat (card (input_referents s b) + pins_in b)"
    and old_o: "\<And>b q. b \<noteq> 0 \<Longrightarrow> output_ports s b = Some q \<Longrightarrow>
                 users_count q = of_nat (card (output_referents s b) + pins_out b)"
    unfolding counts_ok_def by blast+
  have new_k: "users_count q = of_nat (card (input_referents s b) + (pins_in(a := Suc (pins_in a))) b)"
    if "b \<noteq> 0" "input_ports s' b = Some q" for b q
  proof (cases "b = a")
    case True
    with that(2) have q: "q = incrementUsers p" by (simp add: here)
    from old_k [OF that(1)] p True
    have "users_count p = of_nat (card (input_referents s a) + pins_in a)" by simp
    with True show ?thesis unfolding q by (simp add: incrementUsers_def)
  next
    case False
    with that(2) have "input_ports s b = Some q" by (simp add: here)
    from old_k [OF that(1) this] False show ?thesis by simp
  qed
  show ?thesis
    unfolding counts_ok_def same
  proof (intro conjI allI impI)
    show "finite (dom (points s))" by (rule fin)
  qed (rule new_k old_o; assumption)+
qed

lemma counts_ok_output_pin:
  assumes ok: "counts_ok pins_in pins_out s" and call: "output_incrementUsers a s = Inr s'"
  shows "counts_ok pins_in (pins_out(a := Suc (pins_out a))) s'"
proof -
  from call obtain p where p: "output_ports s a = Some p"
    and s': "s' = s\<lparr>output_ports := (output_ports s)(a \<mapsto> incrementUsers p)\<rparr>"
    unfolding output_incrementUsers_Inr by blast
  have same: "input_referents s' = input_referents s" "output_referents s' = output_referents s"
    "points s' = points s" "input_ports s' = input_ports s"
    by (simp_all add: s')
  have here: "output_ports s' b = (if b = a then Some (incrementUsers p) else output_ports s b)" for b
    by (simp add: s')
  from ok have fin: "finite (dom (points s))"
    and old_k: "\<And>b q. b \<noteq> 0 \<Longrightarrow> output_ports s b = Some q \<Longrightarrow>
                 users_count q = of_nat (card (output_referents s b) + pins_out b)"
    and old_o: "\<And>b q. b \<noteq> 0 \<Longrightarrow> input_ports s b = Some q \<Longrightarrow>
                 users_count q = of_nat (card (input_referents s b) + pins_in b)"
    unfolding counts_ok_def by blast+
  have new_k: "users_count q = of_nat (card (output_referents s b) + (pins_out(a := Suc (pins_out a))) b)"
    if "b \<noteq> 0" "output_ports s' b = Some q" for b q
  proof (cases "b = a")
    case True
    with that(2) have q: "q = incrementUsers p" by (simp add: here)
    from old_k [OF that(1)] p True
    have "users_count p = of_nat (card (output_referents s a) + pins_out a)" by simp
    with True show ?thesis unfolding q by (simp add: incrementUsers_def)
  next
    case False
    with that(2) have "output_ports s b = Some q" by (simp add: here)
    from old_k [OF that(1) this] False show ?thesis by simp
  qed
  show ?thesis
    unfolding counts_ok_def same
  proof (intro conjI allI impI)
    show "finite (dom (points s))" by (rule fin)
  qed (rule new_k old_o; assumption)+
qed

lemma counts_ok_input_unpin:
  assumes ok: "counts_ok (pins_in(a := Suc (pins_in a))) pins_out s" and call: "input_decrementUsers a s = Inr s'"
  shows "counts_ok pins_in pins_out s'"
proof -
  from call obtain p where p: "input_ports s a = Some p"
    and s': "s' = s\<lparr>input_ports := (input_ports s)(a \<mapsto> p\<lparr>users_count := users_count p - 1\<rparr>)\<rparr>"
    unfolding input_decrementUsers_Inr by blast
  have same: "input_referents s' = input_referents s" "output_referents s' = output_referents s"
    "points s' = points s" "output_ports s' = output_ports s"
    by (simp_all add: s')
  have here: "input_ports s' b = (if b = a then Some (p\<lparr>users_count := users_count p - 1\<rparr>) else input_ports s b)" for b
    by (simp add: s')
  from ok have fin: "finite (dom (points s))"
    and old_k: "\<And>b q. b \<noteq> 0 \<Longrightarrow> input_ports s b = Some q \<Longrightarrow>
                 users_count q = of_nat (card (input_referents s b) + (pins_in(a := Suc (pins_in a))) b)"
    and old_o: "\<And>b q. b \<noteq> 0 \<Longrightarrow> output_ports s b = Some q \<Longrightarrow>
                 users_count q = of_nat (card (output_referents s b) + pins_out b)"
    unfolding counts_ok_def by blast+
  have new_k: "users_count q = of_nat (card (input_referents s b) + pins_in b)"
    if "b \<noteq> 0" "input_ports s' b = Some q" for b q
  proof (cases "b = a")
    case True
    with that(2) have q: "q = p\<lparr>users_count := users_count p - 1\<rparr>" by (simp add: here)
    from old_k [OF that(1)] p True
    have "users_count p = of_nat (card (input_referents s a) + (pins_in(a := Suc (pins_in a))) a)" by simp
    with True show ?thesis unfolding q by simp
  next
    case False
    with that(2) have "input_ports s b = Some q" by (simp add: here)
    from old_k [OF that(1) this] False show ?thesis by simp
  qed
  show ?thesis
    unfolding counts_ok_def same
  proof (intro conjI allI impI)
    show "finite (dom (points s))" by (rule fin)
  qed (rule new_k old_o; assumption)+
qed

lemma counts_ok_output_unpin:
  assumes ok: "counts_ok pins_in (pins_out(a := Suc (pins_out a))) s" and call: "output_decrementUsers a s = Inr s'"
  shows "counts_ok pins_in pins_out s'"
proof -
  from call obtain p where p: "output_ports s a = Some p"
    and s': "s' = s\<lparr>output_ports := (output_ports s)(a \<mapsto> p\<lparr>users_count := users_count p - 1\<rparr>)\<rparr>"
    unfolding output_decrementUsers_Inr by blast
  have same: "input_referents s' = input_referents s" "output_referents s' = output_referents s"
    "points s' = points s" "input_ports s' = input_ports s"
    by (simp_all add: s')
  have here: "output_ports s' b = (if b = a then Some (p\<lparr>users_count := users_count p - 1\<rparr>) else output_ports s b)" for b
    by (simp add: s')
  from ok have fin: "finite (dom (points s))"
    and old_k: "\<And>b q. b \<noteq> 0 \<Longrightarrow> output_ports s b = Some q \<Longrightarrow>
                 users_count q = of_nat (card (output_referents s b) + (pins_out(a := Suc (pins_out a))) b)"
    and old_o: "\<And>b q. b \<noteq> 0 \<Longrightarrow> input_ports s b = Some q \<Longrightarrow>
                 users_count q = of_nat (card (input_referents s b) + pins_in b)"
    unfolding counts_ok_def by blast+
  have new_k: "users_count q = of_nat (card (output_referents s b) + pins_out b)"
    if "b \<noteq> 0" "output_ports s' b = Some q" for b q
  proof (cases "b = a")
    case True
    with that(2) have q: "q = p\<lparr>users_count := users_count p - 1\<rparr>" by (simp add: here)
    from old_k [OF that(1)] p True
    have "users_count p = of_nat (card (output_referents s a) + (pins_out(a := Suc (pins_out a))) a)" by simp
    with True show ?thesis unfolding q by simp
  next
    case False
    with that(2) have "output_ports s b = Some q" by (simp add: here)
    from old_k [OF that(1) this] False show ?thesis by simp
  qed
  show ?thesis
    unfolding counts_ok_def same
  proof (intro conjI allI impI)
    show "finite (dom (points s))" by (rule fin)
  qed (rule new_k old_o; assumption)+
qed

lemma pins_Cons: "(\<lambda>b. pins b + count_list (a # xs) b) = (\<lambda>b. (pins(a := Suc (pins a))) b + count_list xs b)"
  by (auto simp: fun_eq_iff)

lemma counts_ok_pin_inputs:
  "counts_ok pins_in pins_out s \<Longrightarrow> foreach input_incrementUsers xs s = Inr s' \<Longrightarrow>
     counts_ok (\<lambda>b. pins_in b + count_list xs b) pins_out s'"
proof (induction xs arbitrary: s pins_in)
  case Nil
  then show ?case by simp
next
  case (Cons a xs)
  from Cons.prems(2) obtain t where t: "input_incrementUsers a s = Inr t"
    "foreach input_incrementUsers xs t = Inr s'"
    by (auto simp: ebind_eq_Inr)
  from counts_ok_input_pin [OF Cons.prems(1) t(1)] t(2)
  have "counts_ok (\<lambda>b. (pins_in(a := Suc (pins_in a))) b + count_list xs b) pins_out s'"
    by (rule Cons.IH)
  then show ?case by (simp only: pins_Cons)
qed

lemma counts_ok_pin_outputs:
  "counts_ok pins_in pins_out s \<Longrightarrow> foreach output_incrementUsers xs s = Inr s' \<Longrightarrow>
     counts_ok pins_in (\<lambda>b. pins_out b + count_list xs b) s'"
proof (induction xs arbitrary: s pins_out)
  case Nil
  then show ?case by simp
next
  case (Cons a xs)
  from Cons.prems(2) obtain t where t: "output_incrementUsers a s = Inr t"
    "foreach output_incrementUsers xs t = Inr s'"
    by (auto simp: ebind_eq_Inr)
  from counts_ok_output_pin [OF Cons.prems(1) t(1)] t(2)
  have "counts_ok pins_in (\<lambda>b. (pins_out(a := Suc (pins_out a))) b + count_list xs b) s'"
    by (rule Cons.IH)
  then show ?case by (simp only: pins_Cons)
qed

lemma counts_ok_unpin_inputs:
  "counts_ok (\<lambda>b. pins_in b + count_list xs b) pins_out s \<Longrightarrow>
     foreach input_decrementUsers xs s = Inr s' \<Longrightarrow> counts_ok pins_in pins_out s'"
proof (induction xs arbitrary: s pins_in)
  case Nil
  then show ?case by simp
next
  case (Cons a xs)
  from Cons.prems(2) obtain t where t: "input_decrementUsers a s = Inr t"
    "foreach input_decrementUsers xs t = Inr s'"
    by (auto simp: ebind_eq_Inr)
  let ?pins = "\<lambda>b. pins_in b + count_list xs b"
  have "(\<lambda>b. pins_in b + count_list (a # xs) b) = ?pins(a := Suc (?pins a))"
    by (auto simp: fun_eq_iff)
  with Cons.prems(1) have "counts_ok (?pins(a := Suc (?pins a))) pins_out s"
    by (simp only:)
  from counts_ok_input_unpin [OF this t(1)] t(2) show ?case by (rule Cons.IH)
qed

lemma counts_ok_unpin_outputs:
  "counts_ok pins_in (\<lambda>b. pins_out b + count_list xs b) s \<Longrightarrow>
     foreach output_decrementUsers xs s = Inr s' \<Longrightarrow> counts_ok pins_in pins_out s'"
proof (induction xs arbitrary: s pins_out)
  case Nil
  then show ?case by simp
next
  case (Cons a xs)
  from Cons.prems(2) obtain t where t: "output_decrementUsers a s = Inr t"
    "foreach output_decrementUsers xs t = Inr s'"
    by (auto simp: ebind_eq_Inr)
  let ?pins = "\<lambda>b. pins_out b + count_list xs b"
  have "(\<lambda>b. pins_out b + count_list (a # xs) b) = ?pins(a := Suc (?pins a))"
    by (auto simp: fun_eq_iff)
  with Cons.prems(1) have "counts_ok pins_in (?pins(a := Suc (?pins a))) s"
    by (simp only:)
  from counts_ok_output_unpin [OF this t(1)] t(2) show ?case by (rule Cons.IH)
qed

lemma counts_ok_pin_points:
  "counts_ok pins_in pins_out s \<Longrightarrow> foreach point_incrementUsers xs s = Inr s' \<Longrightarrow>
     counts_ok pins_in pins_out s'"
proof (rule foreach_invariant [where P = "counts_ok pins_in pins_out" and f = point_incrementUsers])
  fix x and s s' :: "'a state"
  assume "counts_ok pins_in pins_out s" "point_incrementUsers x s = Inr s'"
  then show "counts_ok pins_in pins_out s'"
    unfolding point_incrementUsers_Inr incrementUsers_def
    by (auto intro: counts_ok_point_users)
qed

lemma counts_ok_unpin_points:
  "counts_ok pins_in pins_out s \<Longrightarrow> foreach point_decrementUsers xs s = Inr s' \<Longrightarrow>
     counts_ok pins_in pins_out s'"
proof (rule foreach_invariant [where P = "counts_ok pins_in pins_out" and f = point_decrementUsers])
  fix x and s s' :: "'a state"
  assume "counts_ok pins_in pins_out s" "point_decrementUsers x s = Inr s'"
  then show "counts_ok pins_in pins_out s'"
    unfolding point_decrementUsers_Inr
    by (auto intro: counts_ok_point_users)
qed

lemma counts_ok_refAll:
  assumes ok: "counts_ok pins_in pins_out s" and run: "refAll d s = Inr s'"
  shows "counts_ok (\<lambda>a. pins_in a + count_list (inputs d) a)
           (\<lambda>a. pins_out a + count_list (outputs d) a) s'"
proof -
  from run obtain s1 s2 where 1: "foreach input_incrementUsers (inputs d) s = Inr s1"
    and 2: "foreach output_incrementUsers (outputs d) s1 = Inr s2"
    and 3: "foreach point_incrementUsers (matrix_points d) s2 = Inr s'"
    unfolding refAll_def ebind_eq_Inr by blast
  from counts_ok_pin_inputs [OF ok 1] have "counts_ok (\<lambda>a. pins_in a + count_list (inputs d) a) pins_out s1" .
  from counts_ok_pin_outputs [OF this 2] counts_ok_pin_points [OF _ 3] show ?thesis by blast
qed

lemma counts_ok_unrefAll:
  assumes ok: "counts_ok (\<lambda>a. pins_in a + count_list (inputs d) a)
                 (\<lambda>a. pins_out a + count_list (outputs d) a) s"
    and run: "unrefAll d s = Inr (d', s')"
  shows "counts_ok pins_in pins_out s'"
proof -
  from run obtain s1 s2 where 1: "foreach input_decrementUsers (inputs d) s = Inr s1"
    and 2: "foreach output_decrementUsers (outputs d) s1 = Inr s2"
    and 3: "foreach point_decrementUsers (matrix_points d) s2 = Inr s'"
    unfolding unrefAll_def ebind_eq_Inr by auto
  from counts_ok_unpin_inputs [OF ok 1]
  have "counts_ok pins_in (\<lambda>a. pins_out a + count_list (outputs d) a) s1" .
  from counts_ok_unpin_outputs [OF this 2] counts_ok_unpin_points [OF _ 3] show ?thesis by blast
qed

lemmas eval_defs = ebind_def deref_def MatrixPoint_new_def MatrixPoint_copy_def MatrixPoint_move_def
  MatrixPoint_delete_def input_incrementUsers_def output_incrementUsers_def
  input_decrementUsers_def output_decrementUsers_def incrementUsers_def decrementUsers_def

text \<open>
  C3. Start from a store in which every port's counter is the number of live matrix points
  that point to it plus the port's pins, and run any sequence of constructions, copies,
  moves and destructions to its end. Then the counters again equal these numbers (as
  \<open>unsigned int\<close>; as plain numbers whenever the number fits in 32 bits). Step by step:
  a construction and a copy add one to the counters of both ports of the new point, a
  move changes no counter and hands the two pointers to the new point, and the
  destruction of a point with two non-null pointers takes one from both counters.
  The pins are those of the graph: \<open>refAll\<close> adds to the pins of a port the number
  of times the port is listed in the graph, and \<open>unrefAll\<close> takes them away again.
\<close>

theorem users_count_invariant:
  assumes ok: "counts_ok pins_in pins_out s" and run: "foreach call_node calls s = Inr s'"
  shows "counts_ok pins_in pins_out s' \<and>
    (\<forall>a p. a \<noteq> 0 \<longrightarrow> input_ports s' a = Some p \<longrightarrow>
       card (input_referents s' a) + pins_in a < 2 ^ 32 \<longrightarrow>
       unat (users_count p) = card (input_referents s' a) + pins_in a) \<and>
    (\<forall>a p. a \<noteq> 0 \<longrightarrow> output_ports s' a = Some p \<longrightarrow>
       card (output_referents s' a) + pins_out a < 2 ^ 32 \<longrightarrow>
       unat (users_count p) = card (output_referents s' a) + pins_out a) \<and>
    (\<forall>this i o' g t t'. MatrixPoint_new this i o' g t = Inr t' \<longrightarrow>
       (\<exists>ip op. input_ports t i = Some ip \<and> output_ports t o' = Some op \<and>
          input_ports t' = (input_ports t)(i \<mapsto> ip\<lparr>users_count := users_count ip + 1\<rparr>) \<and>
          output_ports t' = (output_ports t)(o' \<mapsto> op\<lparr>users_count := users_count op + 1\<rparr>))) \<and>
    (\<forall>this c t t'. MatrixPoint_copy this c t = Inr t' \<longrightarrow>
       (\<exists>pt ip op. points t c = Some pt \<and>
          input_ports t (input_ptr pt) = Some ip \<and> output_ports t (output_ptr pt) = Some op \<and>
          input_ports t' = (input_ports t)(input_ptr pt \<mapsto> ip\<lparr>users_count := users_count ip + 1\<rparr>) \<and>
          output_ports t' = (output_ports t)(output_ptr pt \<mapsto> op\<lparr>users_count := users_count op + 1\<rparr>))) \<and>
    (\<forall>this m t t'. MatrixPoint_move this m t = Inr t' \<longrightarrow>
       (\<exists>pt new. points t m = Some pt \<and> points t' this = Some new \<and>
          (this \<noteq> m \<longrightarrow> input_ptr new = input_ptr pt \<and> output_ptr new = output_ptr pt) \<and>
          input_ports t' = input_ports t \<and> output_ports t' = output_ports t)) \<and>
    (\<forall>this pt t t'. MatrixPoint_delete this t = Inr t' \<longrightarrow> points t this = Some pt \<longrightarrow>
       input_ptr pt \<noteq> 0 \<longrightarrow> output_ptr pt \<noteq> 0 \<longrightarrow>
       (\<exists>ip op. input_ports t (input_ptr pt) = Some ip \<and> output_ports t (output_ptr pt) = Some op \<and>
          0 < unat (users_count ip) \<and> 0 < unat (users_count op) \<and>
          input_ports t' = (input_ports t)(input_ptr pt \<mapsto> ip\<lparr>users_count := users_count ip - 1\<rparr>) \<and>
          output_ports t' = (output_ports t)(output_ptr pt \<mapsto> op\<lparr>users_count := users_count op - 1\<rparr>))) \<and>
    (\<forall>d t t'. counts_ok pins_in pins_out t \<longrightarrow> refAll d t = Inr t' \<longrightarrow>
       counts_ok (\<lambda>a. pins_in a + count_list (inputs d) a)
         (\<lambda>a. pins_out a + count_list (outputs d) a) t') \<and>
    (\<forall>d t d' t'. counts_ok (\<lambda>a. pins_in a + count_list (inputs d) a)
                     (\<lambda>a. pins_out a + count_list (outputs d) a) t \<longrightarrow>
       unrefAll d t = Inr (d', t') \<longrightarrow> counts_ok pins_in pins_out t')"
proof -
  have ok': "counts_ok pins_in pins_out s'"
    by (rule foreach_invariant [where P = "counts_ok pins_in pins_out", OF _ ok run])
      (rule counts_ok_call_node)
  show ?thesis
  proof (intro conjI allI impI)
    show "counts_ok pins_in pins_out s'" by (rule ok')
  qed (blast intro: counts_ok_exact [OF ok'] MatrixPoint_new_effect MatrixPoint_copy_effect
         MatrixPoint_move_effect MatrixPoint_delete_effect counts_ok_refAll counts_ok_unrefAll)+
qed

theorem users_count_invariant_witness:
  "counts_ok (\<lambda>a. 1) (\<lambda>a. 1)
     \<lparr>input_ports = [1 \<mapsto> \<lparr>users_count = 1, jack_port = 0, name = ''in'', buffer = 0\<rparr>],
      output_ports = [2 \<mapsto> \<lparr>users_count = 1, jack_port = 1, name = ''out'', buffer = 0\<rparr>],
      points = Map.empty, samples = (\<lambda>a. 0 :: int)\<rparr> \<and>
   (\<exists>s'. foreach call_node
            [Construct 10 1 2 3, Copy_Construct 11 10, Move_Construct 12 10, Destroy 10, Destroy 11]
            \<lparr>input_ports = [1 \<mapsto> \<lparr>users_count = 1, jack_port = 0, name = ''in'', buffer = 0\<rparr>],
             output_ports = [2 \<mapsto> \<lparr>users_count = 1, jack_port = 1, name = ''out'', buffer = 0\<rparr>],
             points = Map.empty, samples = (\<lambda>a. 0 :: int)\<rparr> = Inr s' \<and>
         counts_ok (\<lambda>a. 1) (\<lambda>a. 1) s' \<and>
         input_ports s' 1 = Some \<lparr>users_count = 2, jack_port = 0, name = ''in'', buffer = 0\<rparr> \<and>
         output_ports s' 2 = Some \<lparr>users_count = 2, jack_port = 1, name = ''out'', buffer = 0\<rparr> \<and>
         points s' 10 = None \<and> points s' 11 = None \<and>
         points s' 12 = Some \<lparr>users_count = 0, input_ptr = 1, output_ptr = 2, gain = 3\<rparr>)"
proof -
  let ?s = "\<lparr>input_ports = [1 \<mapsto> \<lparr>users_count = 1, jack_port = 0, name = ''in'', buffer = 0\<rparr>],
      output_ports = [2 \<mapsto> \<lparr>users_count = 1, jack_port = 1, name = ''out'', buffer = 0\<rparr>],
      points = Map.empty, samples = (\<lambda>a. 0 :: int)\<rparr>"
  let ?calls = "[Construct 10 1 2 3, Copy_Construct 11 10, Move_Construct 12 10, Destroy 10, Destroy 11]"
  have ok: "counts_ok (\<lambda>a. 1) (\<lambda>a. 1) ?s"
    by (simp add: counts_ok_def input_referents_def output_referents_def)
  have "\<exists>s'. foreach call_node ?calls ?s = Inr s' \<and>
         input_ports s' 1 = Some \<lparr>users_count = 2, jack_port = 0, name = ''in'', buffer = 0\<rparr> \<and>
         output_ports s' 2 = Some \<lparr>users_count = 2, jack_port = 1, name = ''out'', buffer = 0\<rparr> \<and>
         points s' 10 = None \<and> points s' 11 = None \<and>
         points s' 12 = Some \<lparr>users_count = 0, input_ptr = 1, output_ptr = 2, gain = 3\<rparr>"
    by (simp add: eval_defs)
  then obtain s' where run: "foreach call_node ?calls ?s = Inr s'"
    and obs: "input_ports s' 1 = Some \<lparr>users_count = 2, jack_port = 0, name = ''in'', buffer = 0\<rparr>"
      "output_ports s' 2 = Some \<lparr>users_count = 2, jack_port = 1, name = ''out'', buffer = 0\<rparr>"
      "points s' 10 = None" "points s' 11 = None"
      "points s' 12 = Some \<lparr>users_count = 0, input_ptr = 1, output_ptr = 2, gain = 3\<rparr>"
    by blast
  from users_count_invariant [OF ok run] have "counts_ok (\<lambda>a. 1) (\<lambda>a. 1) s'" by blast
  with ok run obs show ?thesis by blast
qed

subsection \<open>The destructor of a moved-from matrix point\<close>

text \<open>
  C10. Move-construct a new matrix point (at another address) from \<open>m\<close>. The move
  leaves both pointers of \<open>m\<close> null; the destructor of \<open>m\<close> then succeeds and every
  input port and output port, counters included, is as it was before the move. In
  general the destructor leaves the input ports alone when the input pointer is null, and
  the output ports alone when the output pointer is null.
\<close>


theorem moved_from_destructor_keeps_counters:
  assumes move: "MatrixPoint_move this m s = Inr s1" and ne: "this \<noteq> m"
  shows "\<exists>pt s2. points s1 m = Some pt \<and> input_ptr pt = 0 \<and> output_ptr pt = 0 \<and>
           MatrixPoint_delete m s1 = Inr s2 \<and>
           input_ports s2 = input_ports s \<and> output_ports s2 = output_ports s \<and>
           (\<forall>t t' q. MatrixPoint_delete m t = Inr t' \<longrightarrow> points t m = Some q \<longrightarrow>
              (input_ptr q = 0 \<longrightarrow> input_ports t' = input_ports t) \<and>
              (output_ptr q = 0 \<longrightarrow> output_ports t' = output_ports t))"
proof -
  from move_then_delete [OF move ne] obtain pt s2 where
    "points s1 m = Some pt \<and> input_ptr pt = 0 \<and> output_ptr pt = 0 \<and>
     MatrixPoint_delete m s1 = Inr s2 \<and>
     input_ports s2 = input_ports s \<and> output_ports s2 = output_ports s"
    by blast
  moreover have "\<forall>t t' q. MatrixPoint_delete m t = Inr t' \<longrightarrow> points t m = Some q \<longrightarrow>
              (input_ptr q = 0 \<longrightarrow> input_ports t' = input_ports t) \<and>
              (output_ptr q = 0 \<longrightarrow> output_ports t' = output_ports t)"
    using MatrixPoint_delete_null by blast
  ultimately show ?thesis by blast
qed

theorem moved_from_destructor_keeps_counters_witness:
  "MatrixPoint_move 12 10
     \<lparr>input_ports = [1 \<mapsto> \<lparr>users_count = 1, jack_port = 0, name = ''in'', buffer = 0\<rparr>],
      output_ports = [2 \<mapsto> \<lparr>users_count = 1, jack_port = 1, name = ''out'', buffer = 0\<rparr>],
      points = [10 \<mapsto> \<lparr>users_count = 0, input_ptr = 1, output_ptr = 2, gain = 3 :: int\<rparr>],
      samples = (\<lambda>a. 0)\<rparr>
   = Inr \<lparr>input_ports = [1 \<mapsto> \<lparr>users_count = 1, jack_port = 0, name = ''in'', buffer = 0\<rparr>],
      output_ports = [2 \<mapsto> \<lparr>users_count = 1, jack_port = 1, name = ''out'', buffer = 0\<rparr>],
      points = [10 \<mapsto> \<lparr>users_count = 0, input_ptr = 1, output_ptr = 2, gain = 3\<rparr>,
                12 \<mapsto> \<lparr>users_count = 0, input_ptr = 1, output_ptr = 2, gain = 3\<rparr>,
                10 \<mapsto> \<lparr>users_count = 0, input_ptr = 0, output_ptr = 0, gain = 3\<rparr>],
      samples = (\<lambda>a. 0)\<rparr> \<and>
   (12 :: nat) \<noteq> 10 \<and>
   (\<exists>s2. MatrixPoint_delete 10
       \<lparr>input_ports = [1 \<mapsto> \<lparr>users_count = 1, jack_port = 0, name = ''in'', buffer = 0\<rparr>],
        output_ports = [2 \<mapsto> \<lparr>users_count = 1, jack_port = 1, name = ''out'', buffer = 0\<rparr>],
        points = [10 \<mapsto> \<lparr>users_count = 0, input_ptr = 1, output_ptr = 2, gain = 3 :: int\<rparr>,
                  12 \<mapsto> \<lparr>users_count = 0, input_ptr = 1, output_ptr = 2, gain = 3\<rparr>,
                  10 \<mapsto> \<lparr>users_count = 0, input_ptr = 0, output_ptr = 0, gain = 3\<rparr>],
        samples = (\<lambda>a. 0)\<rparr> = Inr s2 \<and>
      input_ports s2 = [1 \<mapsto> \<lparr>users_count = 1, jack_port = 0, name = ''in'', buffer = 0\<rparr>] \<and>
      output_ports s2 = [2 \<mapsto> \<lparr>users_count = 1, jack_port = 1, name = ''out'', buffer = 0\<rparr>])"
proof -
  let ?s = "\<lparr>input_ports = [1 \<mapsto> \<lparr>users_count = 1, jack_port = 0, name = ''in'', buffer = 0\<rparr>],
      output_ports = [2 \<mapsto> \<lparr>users_count = 1, jack_port = 1, name = ''out'', buffer = 0\<rparr>],
      points = [10 \<mapsto> \<lparr>users_count = 0, input_ptr = 1, output_ptr = 2, gain = 3 :: int\<rparr>],
      samples = (\<lambda>a. 0)\<rparr>"
  let ?s1 = "\<lparr>input_ports = [1 \<mapsto> \<lparr>users_count = 1, jack_port = 0, name = ''in'', buffer = 0\<rparr>],
      output_ports = [2 \<mapsto> \<lparr>users_count = 1, jack_port = 1, name = ''out'', buffer = 0\<rparr>],
      points = [10 \<mapsto> \<lparr>users_count = 0, input_ptr = 1, output_ptr = 2, gain = 3 :: int\<rparr>,
                12 \<mapsto> \<lparr>users_count = 0, input_ptr = 1, output_ptr = 2, gain = 3\<rparr>,
                10 \<mapsto> \<lparr>users_count = 0, input_ptr = 0, output_ptr = 0, gain = 3\<rparr>],
      samples = (\<lambda>a. 0)\<rparr>"
  have move: "MatrixPoint_move 12 10 ?s = Inr ?s1"
    by (simp add: MatrixPoint_move_def ebind_def deref_def)
  have ne: "(12 :: nat) \<noteq> 10" by simp
  from moved_from_destructor_keeps_counters [OF move ne]
  obtain s2 where "MatrixPoint_delete 10 ?s1 = Inr s2"
    "input_ports s2 = input_ports ?s" "output_ports s2 = output_ports ?s"
    by blast
  then have "\<exists>s2. MatrixPoint_delete 10 ?s1 = Inr s2 \<and>
      input_ports s2 = [1 \<mapsto> \<lparr>users_count = 1, jack_port = 0, name = ''in'', buffer = 0\<rparr>] \<and>
      output_ports s2 = [2 \<mapsto> \<lparr>users_count = 1, jack_port = 1, name = ''out'', buffer = 0\<rparr>]"
    by simp
  with move ne show ?thesis by blast
qed

subsection \<open>The loops\<close>

lemma unat_succ_less:
  fixes i n :: "32 word"
  assumes "i < n"
  shows "unat (i + 1) = Suc (unat i)"
proof -
  from assms have "unat i < unat n" by (simp add: word_less_nat_alt)
  moreover have "unat n < 2 ^ 32" using unsigned_less [of n, where ?'a = nat] by simp
  ultimately have "unat i + unat (1 :: 32 word) < 2 ^ LENGTH(32)" by simp
  then have "unat (i + 1) = unat i + unat (1 :: 32 word)" by (simp only: unat_add_lem [THEN iffD1])
  then show ?thesis by simp
qed

lemma fill_apply: "fill first end v m a = (if first \<le> a \<and> a < end then v else m a)"
proof (induction first "end" v m rule: fill.induct)
  case (1 first "end" v m)
  show ?case
  proof (cases "first < end")
    case True
    have "fill first end v m a = fill (Suc first) end v (m(first := v)) a"
      using True by (subst fill.simps) simp
    also have "\<dots> = (if Suc first \<le> a \<and> a < end then v else (m(first := v)) a)"
      by (rule "1.IH" [OF True])
    also have "\<dots> = (if first \<le> a \<and> a < end then v else m a)"
      using True by auto
    finally show ?thesis .
  next
    case False
    then show ?thesis by (subst fill.simps) auto
  qed
qed

lemma process_loop_apply:
  assumes sep: "separate in_buffer out_buffer n"
  shows "process_loop g in_buffer out_buffer i n m a =
           (if out_buffer + unat i \<le> a \<and> a < out_buffer + unat n
            then m a + g * m (in_buffer + (a - out_buffer)) else m a)"
  using sep
proof (induction g in_buffer out_buffer i n m rule: process_loop.induct)
  case (1 g in_buffer out_buffer i n m)
  let ?m = "m(out_buffer + unat i := m (out_buffer + unat i) + g * m (in_buffer + unat i))"
  show ?case
  proof (cases "i < n")
    case True
    then have lt: "unat i < unat n" by (simp add: word_less_nat_alt)
    have suc: "unat (i + 1) = Suc (unat i)" using True by (rule unat_succ_less)
    have "process_loop g in_buffer out_buffer i n m a
            = process_loop g in_buffer out_buffer (i + 1) n ?m a"
      using True by (subst process_loop.simps) simp
    also have "\<dots> = (if out_buffer + unat (i + 1) \<le> a \<and> a < out_buffer + unat n
            then ?m a + g * ?m (in_buffer + (a - out_buffer)) else ?m a)"
      by (rule "1.IH" [OF True "1.prems"])
    also have "\<dots> = (if out_buffer + unat i \<le> a \<and> a < out_buffer + unat n
            then m a + g * m (in_buffer + (a - out_buffer)) else m a)"
    proof (cases "a = out_buffer + unat i")
      case True
      with lt show ?thesis by (simp add: suc)
    next
      case False
      have "in_buffer + (a - out_buffer) \<noteq> out_buffer + unat i"
        if "out_buffer + unat i \<le> a" "a < out_buffer + unat n"
        using that "1.prems" lt unfolding separate_def by arith
      with False show ?thesis by (auto simp: suc)
    qed
    finally show ?thesis .
  next
    case False
    then have "unat n \<le> unat i" by (simp add: word_less_nat_alt)
    with False show ?thesis by (subst process_loop.simps) auto
  qed
qed


lemma setGain_Inr:
  "this \<noteq> 0 \<Longrightarrow> points s this = Some m \<Longrightarrow>
     setGain v this s = Inr (s\<lparr>points := (points s)(this \<mapsto> m\<lparr>gain := v\<rparr>)\<rparr>)"
  by (simp add: setGain_def deref_def)

lemma process_loop_with_setGain_samples:
  assumes "this \<noteq> 0" and "points s this \<noteq> None"
  shows "\<exists>s'. process_loop_with_setGain control this g in_buffer out_buffer i n s = Inr s' \<and>
           samples s' = process_loop g in_buffer out_buffer i n (samples s) \<and>
           input_ports s' = input_ports s \<and> output_ports s' = output_ports s"
  using assms
proof (induction control this g in_buffer out_buffer i n s rule: process_loop_with_setGain.induct)
  case (1 control this g in_buffer out_buffer i n s)
  show ?case
  proof (cases "i < n")
    case True
    from "1.prems" obtain m where m: "points s this = Some m" by auto
    define s1 where "s1 = (case control i of None \<Rightarrow> s
                             | Some v \<Rightarrow> s\<lparr>points := (points s)(this \<mapsto> m\<lparr>gain := v\<rparr>)\<rparr>)"
    have env: "(case control i of None \<Rightarrow> Inr s | Some v \<Rightarrow> setGain v this s) = Inr s1"
      using "1.prems"(1) m by (simp add: s1_def setGain_Inr split: option.splits)
    have same: "samples s1 = samples s" "input_ports s1 = input_ports s"
      "output_ports s1 = output_ports s" "points s1 this \<noteq> None"
      using m by (simp_all add: s1_def split: option.splits)
    let ?s2 = "s1\<lparr>samples := (samples s1)(out_buffer + unat i :=
                      samples s1 (out_buffer + unat i) + g * samples s1 (in_buffer + unat i))\<rparr>"
    have "points ?s2 this \<noteq> None" using same(4) by simp
    from "1.IH" [OF True "1.prems"(1) this]
    obtain s' where s': "process_loop_with_setGain control this g in_buffer out_buffer (i + 1) n ?s2 = Inr s'"
      "samples s' = process_loop g in_buffer out_buffer (i + 1) n (samples ?s2)"
      "input_ports s' = input_ports ?s2" "output_ports s' = output_ports ?s2"
      by blast
    have "process_loop_with_setGain control this g in_buffer out_buffer i n s = Inr s'"
      using True env s'(1) by (subst process_loop_with_setGain.simps) simp
    moreover have "samples s' = process_loop g in_buffer out_buffer i n (samples s)"
      using True s'(2) same(1) by (subst process_loop.simps) simp
    ultimately show ?thesis using s'(3,4) same(2,3) by simp
  next
    case False
    then show ?thesis
      by (subst process_loop_with_setGain.simps, subst process_loop.simps) simp
  qed
qed

lemma Port_buffer_Inr: "Port_buffer p = Inr b \<longleftrightarrow> buffer p \<noteq> 0 \<and> b = buffer p"
  by (auto simp: Port_buffer_def)

lemma MatrixPoint_process_Inr:
  "MatrixPoint_process n this s = Inr t \<longleftrightarrow>
     (\<exists>m ip op. this \<noteq> 0 \<and> points s this = Some m \<and>
        input_ptr m \<noteq> 0 \<and> input_ports s (input_ptr m) = Some ip \<and> buffer ip \<noteq> 0 \<and>
        output_ptr m \<noteq> 0 \<and> output_ports s (output_ptr m) = Some op \<and> buffer op \<noteq> 0 \<and>
        t = s\<lparr>samples := process_loop (gain m) (buffer ip) (buffer op) 0 n (samples s)\<rparr>)"
  unfolding MatrixPoint_process_def ebind_eq_Inr deref_eq_Inr Port_buffer_Inr by auto

lemmas process_defs = Dsp_process_def refresh_input_def refresh_output_def resetBuffer_def
  updateBufferAddress_def MatrixPoint_process_def Port_buffer_def jack_linear_def
  fill.simps process_loop.simps

subsection \<open>A null buffer\<close>





subsection \<open>One gain per block\<close>

text \<open>
  C5. Let \<open>process\<close> succeed on a matrix point. Whatever calls of \<open>setGain\<close> land
  between the iterations of its loop, \<open>process\<close> succeeds as well and leaves the same
  samples: those of the loop run with the one gain that was loaded before the first
  iteration. When the two buffers do not overlap, every sample \<open>i\<close> of the block is
  \<open>output[i] + gain * input[i]\<close> with that same gain.
\<close>

theorem gain_constant_within_block:
  assumes run: "MatrixPoint_process n this s = Inr t"
  shows "\<exists>m ip op s'. points s this = Some m \<and>
     input_ports s (input_ptr m) = Some ip \<and> output_ports s (output_ptr m) = Some op \<and>
     MatrixPoint_process_with_setGain control n this s = Inr s' \<and>
     samples s' = samples t \<and>
     samples t = process_loop (gain m) (buffer ip) (buffer op) 0 n (samples s) \<and>
     (separate (buffer ip) (buffer op) n \<longrightarrow>
        (\<forall>i<unat n. samples s' (buffer op + i)
                       = samples s (buffer op + i) + gain m * samples s (buffer ip + i)))"
proof -
  from run obtain m ip op where v: "this \<noteq> 0" "points s this = Some m"
    "input_ptr m \<noteq> 0" "input_ports s (input_ptr m) = Some ip" "buffer ip \<noteq> 0"
    "output_ptr m \<noteq> 0" "output_ports s (output_ptr m) = Some op" "buffer op \<noteq> 0"
    and t: "t = s\<lparr>samples := process_loop (gain m) (buffer ip) (buffer op) 0 n (samples s)\<rparr>"
    unfolding MatrixPoint_process_Inr by blast
  from v(2) have "points s this \<noteq> None" by simp
  from process_loop_with_setGain_samples [OF v(1) this, of control "gain m" "buffer ip" "buffer op" 0 n]
  obtain s' where s': "process_loop_with_setGain control this (gain m) (buffer ip) (buffer op) 0 n s = Inr s'"
    "samples s' = process_loop (gain m) (buffer ip) (buffer op) 0 n (samples s)"
    by blast
  have conc: "MatrixPoint_process_with_setGain control n this s = Inr s'"
    using v s'(1) by (simp add: MatrixPoint_process_with_setGain_def deref_def Port_buffer_def)
  have "samples s' (buffer op + i) = samples s (buffer op + i) + gain m * samples s (buffer ip + i)"
    if "separate (buffer ip) (buffer op) n" "i < unat n" for i
    using that by (simp add: s'(2) process_loop_apply)
  with v(2,4,7) conc s'(2) t show ?thesis by auto
qed

theorem gain_constant_within_block_witness:
  "MatrixPoint_process 2 10
     \<lparr>input_ports = [1 \<mapsto> \<lparr>users_count = 1, jack_port = 0, name = ''in'', buffer = 4\<rparr>],
      output_ports = [2 \<mapsto> \<lparr>users_count = 1, jack_port = 1, name = ''out'', buffer = 8\<rparr>],
      points = [10 \<mapsto> \<lparr>users_count = 0, input_ptr = 1, output_ptr = 2, gain = 3 :: int\<rparr>],
      samples = (\<lambda>a. 0)(4 := 1, 5 := 2)\<rparr>
   = Inr \<lparr>input_ports = [1 \<mapsto> \<lparr>users_count = 1, jack_port = 0, name = ''in'', buffer = 4\<rparr>],
      output_ports = [2 \<mapsto> \<lparr>users_count = 1, jack_port = 1, name = ''out'', buffer = 8\<rparr>],
      points = [10 \<mapsto> \<lparr>users_count = 0, input_ptr = 1, output_ptr = 2, gain = 3 :: int\<rparr>],
      samples = (\<lambda>a. 0)(4 := 1, 5 := 2, 8 := 3, 9 := 6)\<rparr> \<and>
   separate 4 8 2 \<and>
   (\<exists>s'. MatrixPoint_process_with_setGain (\<lambda>i. if i = 1 then Some 7 else None) 2 10
       \<lparr>input_ports = [1 \<mapsto> \<lparr>users_count = 1, jack_port = 0, name = ''in'', buffer = 4\<rparr>],
        output_ports = [2 \<mapsto> \<lparr>users_count = 1, jack_port = 1, name = ''out'', buffer = 8\<rparr>],
        points = [10 \<mapsto> \<lparr>users_count = 0, input_ptr = 1, output_ptr = 2, gain = 3 :: int\<rparr>],
        samples = (\<lambda>a. 0)(4 := 1, 5 := 2)\<rparr> = Inr s' \<and>
      samples s' = (\<lambda>a. 0)(4 := 1, 5 := 2, 8 := 3, 9 := 6))"
proof -
  let ?s = "\<lparr>input_ports = [1 \<mapsto> \<lparr>users_count = 1, jack_port = 0, name = ''in'', buffer = 4\<rparr>],
      output_ports = [2 \<mapsto> \<lparr>users_count = 1, jack_port = 1, name = ''out'', buffer = 8\<rparr>],
      points = [10 \<mapsto> \<lparr>users_count = 0, input_ptr = 1, output_ptr = 2, gain = 3 :: int\<rparr>],
      samples = (\<lambda>a. 0)(4 := 1, 5 := 2)\<rparr>"
  let ?t = "\<lparr>input_ports = [1 \<mapsto> \<lparr>users_count = 1, jack_port = 0, name = ''in'', buffer = 4\<rparr>],
      output_ports = [2 \<mapsto> \<lparr>users_count = 1, jack_port = 1, name = ''out'', buffer = 8\<rparr>],
      points = [10 \<mapsto> \<lparr>users_count = 0, input_ptr = 1, output_ptr = 2, gain = 3 :: int\<rparr>],
      samples = (\<lambda>a. 0)(4 := 1, 5 := 2, 8 := 3, 9 := 6)\<rparr>"
  have run: "MatrixPoint_process 2 10 ?s = Inr ?t"
    by (simp add: MatrixPoint_process_def Port_buffer_def process_loop.simps ebind_def deref_def)
  have sep: "separate 4 8 2" by (simp add: separate_def)
  from gain_constant_within_block [OF run, of "\<lambda>i. if i = 1 then Some 7 else None"]
  obtain s' where "MatrixPoint_process_with_setGain (\<lambda>i. if i = 1 then Some 7 else None) 2 10 ?s = Inr s'"
    "samples s' = samples ?t"
    by blast
  then have "\<exists>s'. MatrixPoint_process_with_setGain (\<lambda>i. if i = 1 then Some 7 else None) 2 10 ?s = Inr s' \<and>
      samples s' = (\<lambda>a. 0)(4 := 1, 5 := 2, 8 := 3, 9 := 6)"
    by simp
  with run sep show ?thesis by blast
qed

subsection \<open>One block of the graph\<close>

lemma process_loop_outside:
  "a < out_buffer \<or> out_buffer + unat n \<le> a \<Longrightarrow> process_loop g in_buffer out_buffer i n m a = m a"
proof (induction g in_buffer out_buffer i n m rule: process_loop.induct)
  case (1 g in_buffer out_buffer i n m)
  show ?case
  proof (cases "i < n")
    case True
    then have lt: "unat i < unat n" by (simp add: word_less_nat_alt)
    have "process_loop g in_buffer out_buffer i n m a
            = process_loop g in_buffer out_buffer (i + 1) n
                (m(out_buffer + unat i := m (out_buffer + unat i) + g * m (in_buffer + unat i))) a"
      using True by (subst process_loop.simps) simp
    also have "\<dots> = (m(out_buffer + unat i := m (out_buffer + unat i) + g * m (in_buffer + unat i))) a"
      by (rule "1.IH" [OF True "1.prems"])
    also have "\<dots> = m a" using "1.prems" lt by auto
    finally show ?thesis .
  next
    case False
    then show ?thesis by (subst process_loop.simps) simp
  qed
qed

lemma process_points_Inr:
  assumes "foreach (MatrixPoint_process n) ms t = Inr t'"
  shows "input_ports t' = input_ports t \<and> output_ports t' = output_ports t \<and> points t' = points t \<and>
    (\<forall>m\<in>set ms. m \<noteq> 0 \<and> points t m \<noteq> None \<and>
        input_ptr (point_of t m) \<noteq> 0 \<and> input_ports t (input_ptr (point_of t m)) \<noteq> None \<and>
        output_ptr (point_of t m) \<noteq> 0 \<and> output_ports t (output_ptr (point_of t m)) \<noteq> None \<and>
        in_buffer_of t m \<noteq> 0 \<and> out_buffer_of t m \<noteq> 0) \<and>
    samples t' = fold (\<lambda>m. process_loop (gain (point_of t m)) (in_buffer_of t m) (out_buffer_of t m) 0 n)
                   ms (samples t)"
  using assms
proof (induction ms arbitrary: t)
  case Nil
  then show ?case by simp
next
  case (Cons m ms)
  from Cons.prems obtain t1 where t1: "MatrixPoint_process n m t = Inr t1"
    and rest: "foreach (MatrixPoint_process n) ms t1 = Inr t'"
    by (auto simp: ebind_eq_Inr)
  from t1 obtain pt ip op where v: "m \<noteq> 0" "points t m = Some pt"
    "input_ptr pt \<noteq> 0" "input_ports t (input_ptr pt) = Some ip" "buffer ip \<noteq> 0"
    "output_ptr pt \<noteq> 0" "output_ports t (output_ptr pt) = Some op" "buffer op \<noteq> 0"
    and t1_eq: "t1 = t\<lparr>samples := process_loop (gain pt) (buffer ip) (buffer op) 0 n (samples t)\<rparr>"
    unfolding MatrixPoint_process_Inr by blast
  have same: "point_of t1 = point_of t" "in_buffer_of t1 = in_buffer_of t" "out_buffer_of t1 = out_buffer_of t"
    "input_ports t1 = input_ports t" "output_ports t1 = output_ports t" "points t1 = points t"
    by (simp_all add: t1_eq point_of_def in_buffer_of_def out_buffer_of_def fun_eq_iff)
  have here: "point_of t m = pt" "in_buffer_of t m = buffer ip" "out_buffer_of t m = buffer op"
    using v by (simp_all add: point_of_def in_buffer_of_def out_buffer_of_def)
  have s1: "samples t1 = process_loop (gain (point_of t m)) (in_buffer_of t m) (out_buffer_of t m) 0 n (samples t)"
    by (simp add: t1_eq here)
  from Cons.IH [OF rest] show ?case
    unfolding same s1 using v here by simp
qed

lemma fold_process_loop_apply:
  fixes g :: "nat \<Rightarrow> 'a::{plus,times}"
  assumes in_out: "\<forall>m\<in>set ms. \<forall>m'\<in>set ms. separate (inb m) (outb m') n"
    and out_out: "\<forall>m\<in>set ms. outb m = bo \<or> separate (outb m) bo n"
    and i: "i < unat n"
  shows "fold (\<lambda>m. process_loop (g m) (inb m) (outb m) 0 n) ms mem (bo + i)
           = foldl (\<lambda>acc m. acc + g m * mem (inb m + i)) (mem (bo + i)) (filter (\<lambda>m. outb m = bo) ms)"
  using in_out out_out
proof (induction ms arbitrary: mem)
  case Nil
  then show ?case by simp
next
  case (Cons m ms)
  define mem1 where "mem1 = process_loop (g m) (inb m) (outb m) 0 n mem"
  from Cons.prems have sep: "separate (inb m) (outb m) n" by simp
  have mem1: "mem1 a = (if outb m \<le> a \<and> a < outb m + unat n
                          then mem a + g m * mem (inb m + (a - outb m)) else mem a)" for a
    using process_loop_apply [OF sep, of "g m" 0 mem a] by (simp add: mem1_def)
  have inputs_kept: "mem1 (inb m' + i) = mem (inb m' + i)" if "m' \<in> set (m # ms)" for m'
  proof -
    from Cons.prems(1) that have "separate (inb m') (outb m) n" by auto
    with i show ?thesis unfolding mem1 separate_def by auto
  qed
  have here: "mem1 (bo + i) = (if outb m = bo then mem (bo + i) + g m * mem (inb m + i) else mem (bo + i))"
  proof (cases "outb m = bo")
    case True
    with i show ?thesis unfolding mem1 by simp
  next
    case False
    with Cons.prems(2) have "separate (outb m) bo n" by simp
    with i False show ?thesis unfolding mem1 separate_def by auto
  qed
  have "fold (\<lambda>m. process_loop (g m) (inb m) (outb m) 0 n) (m # ms) mem (bo + i)
          = fold (\<lambda>m. process_loop (g m) (inb m) (outb m) 0 n) ms mem1 (bo + i)"
    by (simp add: mem1_def)
  also have "\<dots> = foldl (\<lambda>acc m. acc + g m * mem1 (inb m + i)) (mem1 (bo + i)) (filter (\<lambda>m. outb m = bo) ms)"
    using Cons.prems by (intro Cons.IH) simp_all
  also have "\<dots> = foldl (\<lambda>acc m. acc + g m * mem (inb m + i)) (mem1 (bo + i)) (filter (\<lambda>m. outb m = bo) ms)"
    by (rule foldl_cong) (simp_all add: inputs_kept)
  also have "\<dots> = foldl (\<lambda>acc m. acc + g m * mem (inb m + i)) (mem (bo + i)) (filter (\<lambda>m. outb m = bo) (m # ms))"
    unfolding here by simp
  finally show ?case .
qed

lemma fold_process_loop_outside:
  assumes "\<forall>m\<in>set ms. a < outb m \<or> outb m + unat n \<le> a"
  shows "fold (\<lambda>m. process_loop (g m) (inb m) (outb m) 0 n) ms mem a = mem a"
  using assms by (induction ms arbitrary: mem) (simp_all add: process_loop_outside)


lemma updateBufferAddress_simps [simp]:
  "jack_port (updateBufferAddress jack n p) = jack_port p"
  "buffer (updateBufferAddress jack n p) = jack (jack_port p) n"
  "updateBufferAddress jack n (updateBufferAddress jack n p) = updateBufferAddress jack n p"
  by (simp_all add: updateBufferAddress_def)

lemma refresh_input_Inr:
  "refresh_input jack n a s = Inr s' \<longleftrightarrow>
     (\<exists>p. a \<noteq> 0 \<and> input_ports s a = Some p \<and>
          s' = s\<lparr>input_ports := (input_ports s)(a \<mapsto> updateBufferAddress jack n p)\<rparr>)"
  unfolding refresh_input_def ebind_eq_Inr deref_eq_Inr by auto

lemma refresh_inputs_Inr:
  assumes "foreach (refresh_input jack n) xs s = Inr s1"
  shows "output_ports s1 = output_ports s \<and> points s1 = points s \<and> samples s1 = samples s \<and>
     (\<forall>a\<in>set xs. a \<noteq> 0 \<and> input_ports s a \<noteq> None) \<and>
     input_ports s1 = (\<lambda>a. if a \<in> set xs then map_option (updateBufferAddress jack n) (input_ports s a)
                            else input_ports s a)"
  using assms
proof (induction xs arbitrary: s)
  case Nil
  then show ?case by simp
next
  case (Cons a xs)
  from Cons.prems obtain sa where sa: "refresh_input jack n a s = Inr sa"
    and rest: "foreach (refresh_input jack n) xs sa = Inr s1"
    by (auto simp: ebind_eq_Inr)
  from sa obtain p where p: "a \<noteq> 0" "input_ports s a = Some p"
    and sa_eq: "sa = s\<lparr>input_ports := (input_ports s)(a \<mapsto> updateBufferAddress jack n p)\<rparr>"
    unfolding refresh_input_Inr by blast
  have sa_ports: "input_ports sa = (input_ports s)(a \<mapsto> updateBufferAddress jack n p)"
    "output_ports sa = output_ports s" "points sa = points s" "samples sa = samples s"
    by (simp_all add: sa_eq)
  note IH = Cons.IH [OF rest, unfolded sa_ports]
  have valid: "b \<noteq> 0 \<and> input_ports s b \<noteq> None" if "b \<in> set (a # xs)" for b
  proof (cases "b = a")
    case True
    with p show ?thesis by simp
  next
    case False
    with that have "b \<in> set xs" by simp
    with IH have "b \<noteq> 0 \<and> (if b = a then Some (updateBufferAddress jack n p) else input_ports s b) \<noteq> None"
      by simp
    with False show ?thesis by simp
  qed
  have "input_ports s1 b = (if b \<in> set (a # xs)
            then map_option (updateBufferAddress jack n) (input_ports s b) else input_ports s b)" for b
    using IH p by (cases "b = a") simp_all
  with IH valid show ?case by (simp add: fun_eq_iff)
qed

lemma zeroed_refresh:
  assumes "ports a = Some p"
  shows "zeroed jack n (ports(a \<mapsto> updateBufferAddress jack n p)) xs = zeroed jack n ports xs"
proof -
  have "(\<exists>q. (ports(a \<mapsto> updateBufferAddress jack n p)) b = Some q \<and>
             jack (jack_port q) n \<le> x \<and> x < jack (jack_port q) n + unat n)
      = (\<exists>q. ports b = Some q \<and> jack (jack_port q) n \<le> x \<and> x < jack (jack_port q) n + unat n)"
    for b x
    using assms by (cases "b = a") simp_all
  then show ?thesis by (simp add: zeroed_def)
qed

lemma zeroed_Cons:
  "ports a = Some p \<Longrightarrow>
     x \<in> zeroed jack n ports (a # xs) \<longleftrightarrow>
       (jack (jack_port p) n \<le> x \<and> x < jack (jack_port p) n + unat n) \<or> x \<in> zeroed jack n ports xs"
  by (auto simp: zeroed_def)

lemma refresh_output_Inr:
  "refresh_output jack n a s = Inr s' \<longleftrightarrow>
     (\<exists>p. a \<noteq> 0 \<and> output_ports s a = Some p \<and> \<not> (jack (jack_port p) n = 0 \<and> n \<noteq> 0) \<and>
          s' = s\<lparr>output_ports := (output_ports s)(a \<mapsto> updateBufferAddress jack n p),
                 samples := fill (jack (jack_port p) n) (jack (jack_port p) n + unat n) 0 (samples s)\<rparr>)"
  unfolding refresh_output_def ebind_eq_Inr deref_eq_Inr resetBuffer_def
  by (auto split: if_splits)

lemma refresh_outputs_Inr:
  assumes "foreach (refresh_output jack n) xs s = Inr s2"
  shows "input_ports s2 = input_ports s \<and> points s2 = points s \<and>
     (\<forall>a\<in>set xs. a \<noteq> 0 \<and> output_ports s a \<noteq> None) \<and>
     output_ports s2 = (\<lambda>a. if a \<in> set xs then map_option (updateBufferAddress jack n) (output_ports s a)
                             else output_ports s a) \<and>
     samples s2 = (\<lambda>x. if x \<in> zeroed jack n (output_ports s) xs then 0 else samples s x)"
  using assms
proof (induction xs arbitrary: s)
  case Nil
  then show ?case by (simp add: zeroed_def)
next
  case (Cons a xs)
  from Cons.prems obtain sa where sa: "refresh_output jack n a s = Inr sa"
    and rest: "foreach (refresh_output jack n) xs sa = Inr s2"
    by (auto simp: ebind_eq_Inr)
  from sa obtain p where p: "a \<noteq> 0" "output_ports s a = Some p"
    and sa_eq: "sa = s\<lparr>output_ports := (output_ports s)(a \<mapsto> updateBufferAddress jack n p),
                 samples := fill (jack (jack_port p) n) (jack (jack_port p) n + unat n) 0 (samples s)\<rparr>"
    unfolding refresh_output_Inr by blast
  have sa_ports: "output_ports sa = (output_ports s)(a \<mapsto> updateBufferAddress jack n p)"
    "input_ports sa = input_ports s" "points sa = points s"
    "samples sa = fill (jack (jack_port p) n) (jack (jack_port p) n + unat n) 0 (samples s)"
    by (simp_all add: sa_eq)
  note IH = Cons.IH [OF rest, unfolded sa_ports zeroed_refresh [of "output_ports s", OF p(2)]]
  have valid: "b \<noteq> 0 \<and> output_ports s b \<noteq> None" if "b \<in> set (a # xs)" for b
  proof (cases "b = a")
    case True
    with p show ?thesis by simp
  next
    case False
    with that have "b \<in> set xs" by simp
    with IH have "b \<noteq> 0 \<and> (if b = a then Some (updateBufferAddress jack n p) else output_ports s b) \<noteq> None"
      by simp
    with False show ?thesis by simp
  qed
  have ports: "output_ports s2 b = (if b \<in> set (a # xs)
            then map_option (updateBufferAddress jack n) (output_ports s b) else output_ports s b)" for b
    using IH p by (cases "b = a") simp_all
  have mem: "samples s2 x = (if x \<in> zeroed jack n (output_ports s) (a # xs) then 0 else samples s x)" for x
    using IH by (simp add: fill_apply zeroed_Cons [of "output_ports s", OF p(2)])
  from IH valid ports mem show ?case by (simp add: fun_eq_iff)
qed


lemma Dsp_process_Inr:
  assumes "Dsp_process jack n d s = Inr s'"
  obtains s1 s2 where "foreach (refresh_input jack n) (inputs d) s = Inr s1"
    and "foreach (refresh_output jack n) (outputs d) s1 = Inr s2"
    and "foreach (MatrixPoint_process n) (matrix_points d) s2 = Inr s'"
  using assms unfolding Dsp_process_def ebind_eq_Inr by blast

lemma Dsp_process_phases:
  assumes run: "Dsp_process jack n d s = Inr s'"
  obtains s2 where
    "input_ports s2 = (\<lambda>a. if a \<in> set (inputs d)
        then map_option (updateBufferAddress jack n) (input_ports s a) else input_ports s a)"
    and "output_ports s2 = (\<lambda>a. if a \<in> set (outputs d)
        then map_option (updateBufferAddress jack n) (output_ports s a) else output_ports s a)"
    and "points s2 = points s"
    and "samples s2 = (\<lambda>x. if x \<in> zeroed jack n (output_ports s) (outputs d) then 0 else samples s x)"
    and "\<forall>a\<in>set (inputs d). a \<noteq> 0 \<and> input_ports s a \<noteq> None"
    and "\<forall>a\<in>set (outputs d). a \<noteq> 0 \<and> output_ports s a \<noteq> None"
    and "foreach (MatrixPoint_process n) (matrix_points d) s2 = Inr s'"
proof -
  from run obtain s1 s2 where 1: "foreach (refresh_input jack n) (inputs d) s = Inr s1"
    and 2: "foreach (refresh_output jack n) (outputs d) s1 = Inr s2"
    and 3: "foreach (MatrixPoint_process n) (matrix_points d) s2 = Inr s'"
    by (rule Dsp_process_Inr)
  from refresh_inputs_Inr [OF 1] have P1: "output_ports s1 = output_ports s" "points s1 = points s"
    "samples s1 = samples s" "\<forall>a\<in>set (inputs d). a \<noteq> 0 \<and> input_ports s a \<noteq> None"
    "input_ports s1 = (\<lambda>a. if a \<in> set (inputs d)
        then map_option (updateBufferAddress jack n) (input_ports s a) else input_ports s a)"
    by blast+
  from refresh_outputs_Inr [OF 2, unfolded P1] have P2:
    "input_ports s2 = (\<lambda>a. if a \<in> set (inputs d)
        then map_option (updateBufferAddress jack n) (input_ports s a) else input_ports s a)"
    "points s2 = points s" "\<forall>a\<in>set (outputs d). a \<noteq> 0 \<and> output_ports s a \<noteq> None"
    "output_ports s2 = (\<lambda>a. if a \<in> set (outputs d)
        then map_option (updateBufferAddress jack n) (output_ports s a) else output_ports s a)"
    "samples s2 = (\<lambda>x. if x \<in> zeroed jack n (output_ports s) (outputs d) then 0 else samples s x)"
    by blast+
  show thesis by (rule that [of s2, OF P2(1) P2(4) P2(2) P2(5) P1(4) P2(3) 3])
qed


lemma in_zeroed:
  assumes "a \<in> set xs" and "ports a = Some q" and "i < unat n"
  shows "jack (jack_port q) n + i \<in> zeroed jack n ports xs"
proof -
  have "jack (jack_port q) n \<le> jack (jack_port q) n + i \<and>
        jack (jack_port q) n + i < jack (jack_port q) n + unat n"
    using assms(3) by simp
  with assms(1,2) show ?thesis unfolding zeroed_def by blast
qed

lemma not_in_zeroed:
  assumes "\<forall>a\<in>set xs. \<forall>q. ports a = Some q \<longrightarrow> b + unat n \<le> jack (jack_port q) n \<or> jack (jack_port q) n + unat n \<le> b"
    and "i < unat n"
  shows "b + i \<notin> zeroed jack n ports xs"
proof
  assume "b + i \<in> zeroed jack n ports xs"
  then obtain a q where aq: "a \<in> set xs" "ports a = Some q"
    "jack (jack_port q) n \<le> b + i" "b + i < jack (jack_port q) n + unat n"
    unfolding zeroed_def by blast
  from assms(1) aq(1,2) have "b + unat n \<le> jack (jack_port q) n \<or> jack (jack_port q) n + unat n \<le> b"
    by blast
  with aq(3,4) assms(2) show False by arith
qed

lemma Dsp_process_output:
  fixes s :: "'a::{zero,plus,times} state"
  assumes run: "Dsp_process jack n d s = Inr s'"
    and graph: "points_in_graph d s"
    and so: "outputs_separate jack n d s"
    and si: "inputs_separate jack n d s"
    and o: "b \<in> set (outputs d)" "output_ports s b = Some q"
    and i: "i < unat n"
  shows "samples s' (jack (jack_port q) n + i)
           = foldl (\<lambda>acc m. acc + gain (point_of s m) * samples s (block_in_buffer jack n s m + i)) 0
               (filter (\<lambda>m. output_ptr (point_of s m) = b) (matrix_points d))"
proof -
  let ?ms = "matrix_points d" and ?bo = "jack (jack_port q) n"
  from run obtain s2 where
    I2: "input_ports s2 = (\<lambda>a. if a \<in> set (inputs d)
        then map_option (updateBufferAddress jack n) (input_ports s a) else input_ports s a)"
    and O2: "output_ports s2 = (\<lambda>a. if a \<in> set (outputs d)
        then map_option (updateBufferAddress jack n) (output_ports s a) else output_ports s a)"
    and P2: "points s2 = points s"
    and S2: "samples s2 = (\<lambda>x. if x \<in> zeroed jack n (output_ports s) (outputs d) then 0 else samples s x)"
    and VI: "\<forall>a\<in>set (inputs d). a \<noteq> 0 \<and> input_ports s a \<noteq> None"
    and VO: "\<forall>a\<in>set (outputs d). a \<noteq> 0 \<and> output_ports s a \<noteq> None"
    and 3: "foreach (MatrixPoint_process n) ?ms s2 = Inr s'"
    by (rule Dsp_process_phases)
  from process_points_Inr [OF 3] have
    V3: "\<forall>m\<in>set ?ms. points s2 m \<noteq> None"
    and S3: "samples s' = fold (\<lambda>m. process_loop (gain (point_of s2 m)) (in_buffer_of s2 m) (out_buffer_of s2 m) 0 n)
                   ?ms (samples s2)"
    by blast+
  have pt2: "point_of s2 = point_of s" by (simp add: point_of_def P2 fun_eq_iff)
  have node: "\<exists>pt ip op. points s m = Some pt \<and> point_of s m = pt \<and>
      input_ptr pt \<in> set (inputs d) \<and> input_ports s (input_ptr pt) = Some ip \<and>
      output_ptr pt \<in> set (outputs d) \<and> output_ports s (output_ptr pt) = Some op \<and>
      in_buffer_of s2 m = jack (jack_port ip) n \<and> out_buffer_of s2 m = jack (jack_port op) n \<and>
      block_in_buffer jack n s m = jack (jack_port ip) n"
    if "m \<in> set ?ms" for m
  proof -
    from V3 that P2 obtain pt where pt: "points s m = Some pt" by auto
    with graph that have mem: "input_ptr pt \<in> set (inputs d)" "output_ptr pt \<in> set (outputs d)"
      unfolding points_in_graph_def by blast+
    from VI mem(1) obtain ip where ip: "input_ports s (input_ptr pt) = Some ip" by auto
    from VO mem(2) obtain op where op: "output_ports s (output_ptr pt) = Some op" by auto
    have "point_of s m = pt" using pt by (simp add: point_of_def)
    moreover have "in_buffer_of s2 m = jack (jack_port ip) n"
      using pt ip mem by (simp add: in_buffer_of_def point_of_def P2 I2)
    moreover have "out_buffer_of s2 m = jack (jack_port op) n"
      using pt op mem by (simp add: out_buffer_of_def point_of_def P2 O2)
    moreover have "block_in_buffer jack n s m = jack (jack_port ip) n"
      using pt ip by (simp add: block_in_buffer_def point_of_def)
    ultimately show ?thesis using pt mem ip op by blast
  qed
  have in_out: "\<forall>m\<in>set ?ms. \<forall>m'\<in>set ?ms. separate (in_buffer_of s2 m) (out_buffer_of s2 m') n"
  proof (intro ballI)
    fix m m' assume "m \<in> set ?ms" "m' \<in> set ?ms"
    from node [OF this(1)] node [OF this(2)] si
    show "separate (in_buffer_of s2 m) (out_buffer_of s2 m') n"
      unfolding inputs_separate_def by metis
  qed
  have out_cases: "(output_ptr (point_of s m) = b \<longrightarrow> out_buffer_of s2 m = ?bo) \<and>
                   (output_ptr (point_of s m) \<noteq> b \<longrightarrow> separate (out_buffer_of s2 m) ?bo n)"
    if "m \<in> set ?ms" for m
  proof -
    from node [OF that] obtain pt op where n: "point_of s m = pt"
      "output_ptr pt \<in> set (outputs d)" "output_ports s (output_ptr pt) = Some op"
      "out_buffer_of s2 m = jack (jack_port op) n"
      by blast
    show ?thesis
    proof (cases "output_ptr pt = b")
      case True
      with n o show ?thesis by simp
    next
      case False
      with so n o have "separate (jack (jack_port op) n) ?bo n"
        unfolding outputs_separate_def by blast
      with False n show ?thesis by simp
    qed
  qed
  have out_out: "\<forall>m\<in>set ?ms. out_buffer_of s2 m = ?bo \<or> separate (out_buffer_of s2 m) ?bo n"
    using out_cases by blast
  have target: "(out_buffer_of s2 m = ?bo) = (output_ptr (point_of s m) = b)" if "m \<in> set ?ms" for m
  proof (cases "output_ptr (point_of s m) = b")
    case True
    with out_cases [OF that] show ?thesis by simp
  next
    case False
    with out_cases [OF that] have "separate (out_buffer_of s2 m) ?bo n" by simp
    with i have "out_buffer_of s2 m \<noteq> ?bo" unfolding separate_def by arith
    with False show ?thesis by simp
  qed
  have zero: "samples s2 (?bo + i) = 0"
    using in_zeroed [of b "outputs d" "output_ports s" q i n jack, OF o i] by (simp add: S2)
  have input_kept: "samples s2 (in_buffer_of s2 m + i) = samples s (block_in_buffer jack n s m + i)"
    if "m \<in> set ?ms" for m
  proof -
    from node [OF that] obtain pt ip where pt: "point_of s m = pt"
      and n: "input_ptr pt \<in> set (inputs d)"
      "input_ports s (input_ptr pt) = Some ip"
      "in_buffer_of s2 m = jack (jack_port ip) n" "block_in_buffer jack n s m = jack (jack_port ip) n"
      by blast
    have "\<forall>a\<in>set (outputs d). \<forall>q. output_ports s a = Some q \<longrightarrow>
            jack (jack_port ip) n + unat n \<le> jack (jack_port q) n \<or>
            jack (jack_port q) n + unat n \<le> jack (jack_port ip) n"
      using si n(1,2) unfolding inputs_separate_def separate_def by blast
    from not_in_zeroed [of "outputs d" "output_ports s" "jack (jack_port ip) n" n jack i, OF this i]
    show ?thesis by (simp add: S2 n)
  qed
  have "samples s' (?bo + i)
          = foldl (\<lambda>acc m. acc + gain (point_of s2 m) * samples s2 (in_buffer_of s2 m + i))
              (samples s2 (?bo + i)) (filter (\<lambda>m. out_buffer_of s2 m = ?bo) ?ms)"
    unfolding S3 by (rule fold_process_loop_apply [OF in_out out_out i])
  also have "filter (\<lambda>m. out_buffer_of s2 m = ?bo) ?ms = filter (\<lambda>m. output_ptr (point_of s m) = b) ?ms"
    by (rule filter_cong [OF refl]) (rule target)
  also have "foldl (\<lambda>acc m. acc + gain (point_of s2 m) * samples s2 (in_buffer_of s2 m + i))
              (samples s2 (?bo + i)) (filter (\<lambda>m. output_ptr (point_of s m) = b) ?ms)
           = foldl (\<lambda>acc m. acc + gain (point_of s m) * samples s (block_in_buffer jack n s m + i))
              0 (filter (\<lambda>m. output_ptr (point_of s m) = b) ?ms)"
    by (rule foldl_cong) (simp_all add: zero pt2 input_kept)
  finally show ?thesis .
qed


lemma Dsp_process_ports:
  assumes run: "Dsp_process jack n d s = Inr s'"
  shows "input_ports s' = (\<lambda>a. if a \<in> set (inputs d)
            then map_option (updateBufferAddress jack n) (input_ports s a) else input_ports s a)"
    and "output_ports s' = (\<lambda>a. if a \<in> set (outputs d)
            then map_option (updateBufferAddress jack n) (output_ports s a) else output_ports s a)"
    and "points s' = points s"
proof -
  from run obtain s2 where
    I2: "input_ports s2 = (\<lambda>a. if a \<in> set (inputs d)
        then map_option (updateBufferAddress jack n) (input_ports s a) else input_ports s a)"
    and O2: "output_ports s2 = (\<lambda>a. if a \<in> set (outputs d)
        then map_option (updateBufferAddress jack n) (output_ports s a) else output_ports s a)"
    and P2: "points s2 = points s"
    and 3: "foreach (MatrixPoint_process n) (matrix_points d) s2 = Inr s'"
    by (rule Dsp_process_phases)
  from process_points_Inr [OF 3]
  have "input_ports s' = input_ports s2" "output_ports s' = output_ports s2" "points s' = points s2"
    by blast+
  with I2 O2 P2
  show "input_ports s' = (\<lambda>a. if a \<in> set (inputs d)
            then map_option (updateBufferAddress jack n) (input_ports s a) else input_ports s a)"
    and "output_ports s' = (\<lambda>a. if a \<in> set (outputs d)
            then map_option (updateBufferAddress jack n) (output_ports s a) else output_ports s a)"
    and "points s' = points s"
    by simp_all
qed

lemma Dsp_process_silence:
  fixes s :: "'a::{zero,plus,times} state"
  assumes run: "Dsp_process jack n d s = Inr s'"
    and graph: "points_in_graph d s"
    and so: "outputs_separate jack n d s"
    and o: "b \<in> set (outputs d)" "output_ports s b = Some q"
    and none: "\<forall>m\<in>set (matrix_points d). output_ptr (point_of s m) \<noteq> b"
    and i: "i < unat n"
  shows "samples s' (jack (jack_port q) n + i) = 0"
proof -
  let ?ms = "matrix_points d" and ?bo = "jack (jack_port q) n"
  from run obtain s2 where
    O2: "output_ports s2 = (\<lambda>a. if a \<in> set (outputs d)
        then map_option (updateBufferAddress jack n) (output_ports s a) else output_ports s a)"
    and P2: "points s2 = points s"
    and S2: "samples s2 = (\<lambda>x. if x \<in> zeroed jack n (output_ports s) (outputs d) then 0 else samples s x)"
    and VO: "\<forall>a\<in>set (outputs d). a \<noteq> 0 \<and> output_ports s a \<noteq> None"
    and 3: "foreach (MatrixPoint_process n) ?ms s2 = Inr s'"
    by (rule Dsp_process_phases)
  from process_points_Inr [OF 3] have
    V3: "\<forall>m\<in>set ?ms. points s2 m \<noteq> None"
    and S3: "samples s' = fold (\<lambda>m. process_loop (gain (point_of s2 m)) (in_buffer_of s2 m) (out_buffer_of s2 m) 0 n)
                   ?ms (samples s2)"
    by blast+
  have away: "?bo + i < out_buffer_of s2 m \<or> out_buffer_of s2 m + unat n \<le> ?bo + i"
    if "m \<in> set ?ms" for m
  proof -
    from V3 that P2 obtain pt where pt: "points s m = Some pt" by auto
    with graph that have mem: "output_ptr pt \<in> set (outputs d)"
      unfolding points_in_graph_def by blast
    from VO mem obtain op where op: "output_ports s (output_ptr pt) = Some op" by auto
    have ob: "out_buffer_of s2 m = jack (jack_port op) n"
      using pt op mem by (simp add: out_buffer_of_def point_of_def P2 O2)
    from none that have "output_ptr (point_of s m) \<noteq> b" by blast
    with pt have "output_ptr pt \<noteq> b" by (simp add: point_of_def)
    with so mem o op have "separate (jack (jack_port op) n) ?bo n"
      unfolding outputs_separate_def by blast
    with i show ?thesis unfolding ob separate_def by arith
  qed
  have "samples s' (?bo + i) = samples s2 (?bo + i)"
    unfolding S3 by (rule fold_process_loop_outside) (simp add: away)
  also have "\<dots> = 0"
    using in_zeroed [of b "outputs d" "output_ports s" q i n jack, OF o i] by (simp add: S2)
  finally show ?thesis .
qed

lemma MatrixPoint_process_accumulates:
  assumes run: "MatrixPoint_process n m t = Inr t'"
    and sep: "separate (in_buffer_of t m) (out_buffer_of t m) n"
    and i: "i < unat n"
  shows "samples t' (out_buffer_of t m + i)
           = samples t (out_buffer_of t m + i) + gain (point_of t m) * samples t (in_buffer_of t m + i)"
proof -
  from run obtain pt ip op where v: "points t m = Some pt"
    "input_ports t (input_ptr pt) = Some ip" "output_ports t (output_ptr pt) = Some op"
    and t': "t' = t\<lparr>samples := process_loop (gain pt) (buffer ip) (buffer op) 0 n (samples t)\<rparr>"
    unfolding MatrixPoint_process_Inr by blast
  have here: "point_of t m = pt" "in_buffer_of t m = buffer ip" "out_buffer_of t m = buffer op"
    using v by (simp_all add: point_of_def in_buffer_of_def out_buffer_of_def)
  from sep i show ?thesis
    unfolding here by (simp add: t' process_loop_apply)
qed

lemma example_ok:
  "points_in_graph example_graph example_state"
  "outputs_separate (jack_linear 16) 2 example_graph example_state"
  "inputs_separate (jack_linear 16) 2 example_graph example_state"
  by (simp_all add: points_in_graph_def outputs_separate_def inputs_separate_def
        example_graph_def example_state_def separate_def jack_linear_def)

lemma example_run:
  "\<exists>s'. Dsp_process (jack_linear 16) 2 example_graph example_state = Inr s'"
  by (simp add: example_graph_def example_state_def process_defs ebind_def deref_def)

text \<open>
  C1. Let \<open>Dsp::process\<close> return for a graph whose matrix points point to ports of the
  graph, with a backend whose output buffers do not overlap each other or an input buffer.
  Then for every output port of the graph and every sample index \<open>i\<close> below the block
  size, the sample \<open>i\<close> of the port's buffer is the sum, taken in the order of
  \<open>matrix_points\<close> from the zero that \<open>resetBuffer\<close> wrote, of \<open>gain * input[i]\<close> over the
  matrix points whose output is this port, \<open>input\<close> being the block's samples in the
  buffer of the point's input port. And a single \<open>process\<close> of a matrix point adds
  \<open>gain * input[i]\<close> to \<open>output[i]\<close>; it does not overwrite it.
\<close>

theorem Dsp_process_mixes:
  fixes s :: "'a::{zero,plus,times} state"
  assumes run: "Dsp_process jack n d s = Inr s'"
    and graph: "points_in_graph d s"
    and so: "outputs_separate jack n d s"
    and si: "inputs_separate jack n d s"
    and o: "b \<in> set (outputs d)" "output_ports s b = Some q"
    and i: "i < unat n"
  shows "(\<exists>q'. output_ports s' b = Some q' \<and> buffer q' = jack (jack_port q) n \<and>
           samples s' (buffer q' + i)
             = foldl (\<lambda>acc m. acc + gain (point_of s m) * samples s (block_in_buffer jack n s m + i)) 0
                 (filter (\<lambda>m. output_ptr (point_of s m) = b) (matrix_points d))) \<and>
         (\<forall>m t t'. MatrixPoint_process n m (t :: 'a state) = Inr t' \<longrightarrow>
            separate (in_buffer_of t m) (out_buffer_of t m) n \<longrightarrow>
            samples t' (out_buffer_of t m + i)
              = samples t (out_buffer_of t m + i) + gain (point_of t m) * samples t (in_buffer_of t m + i))"
proof (intro conjI allI impI)
  have "output_ports s' b = Some (updateBufferAddress jack n q)"
    using Dsp_process_ports(2) [OF run] o by simp
  moreover have "buffer (updateBufferAddress jack n q) = jack (jack_port q) n" by simp
  moreover note Dsp_process_output [OF run graph so si o i]
  ultimately show "\<exists>q'. output_ports s' b = Some q' \<and> buffer q' = jack (jack_port q) n \<and>
           samples s' (buffer q' + i)
             = foldl (\<lambda>acc m. acc + gain (point_of s m) * samples s (block_in_buffer jack n s m + i)) 0
                 (filter (\<lambda>m. output_ptr (point_of s m) = b) (matrix_points d))"
    by simp
next
  fix m and t t' :: "'a state"
  assume "MatrixPoint_process n m t = Inr t'" "separate (in_buffer_of t m) (out_buffer_of t m) n"
  then show "samples t' (out_buffer_of t m + i)
      = samples t (out_buffer_of t m + i) + gain (point_of t m) * samples t (in_buffer_of t m + i)"
    using i by (rule MatrixPoint_process_accumulates)
qed

theorem Dsp_process_mixes_witness:
  "points_in_graph example_graph example_state \<and>
   outputs_separate (jack_linear 16) 2 example_graph example_state \<and>
   inputs_separate (jack_linear 16) 2 example_graph example_state \<and>
   3 \<in> set (outputs example_graph) \<and>
   output_ports example_state 3 = Some \<lparr>users_count = 2, jack_port = 2, name = ''O'', buffer = 0\<rparr> \<and>
   (1 :: nat) < unat (2 :: 32 word) \<and>
   (\<exists>s' q'. Dsp_process (jack_linear 16) 2 example_graph example_state = Inr s' \<and>
        output_ports s' 3 = Some q' \<and> buffer q' = 20 \<and> samples s' (buffer q' + 1) = 4)"
proof -
  from example_run obtain s' where run: "Dsp_process (jack_linear 16) 2 example_graph example_state = Inr s'"
    by blast
  have b: "3 \<in> set (outputs example_graph)" by (simp add: example_graph_def)
  have q: "output_ports example_state 3 = Some \<lparr>users_count = 2, jack_port = 2, name = ''O'', buffer = 0\<rparr>"
    by (simp add: example_state_def)
  have i: "(1 :: nat) < unat (2 :: 32 word)" by simp
  from Dsp_process_mixes [OF run example_ok b q i]
  obtain q' where "output_ports s' 3 = Some q'"
    "buffer q' = jack_linear 16 (jack_port \<lparr>users_count = 2, jack_port = 2, name = ''O'', buffer = 0\<rparr>) 2"
    "samples s' (buffer q' + 1)
       = foldl (\<lambda>acc m. acc + gain (point_of example_state m)
                               * samples example_state (block_in_buffer (jack_linear 16) 2 example_state m + 1)) 0
           (filter (\<lambda>m. output_ptr (point_of example_state m) = 3) (matrix_points example_graph))"
    by blast
  then have "output_ports s' 3 = Some q' \<and> buffer q' = 20 \<and> samples s' (buffer q' + 1) = 4"
    by (simp add: example_graph_def example_state_def point_of_def block_in_buffer_def jack_linear_def)
  with run example_ok b q i show ?thesis by blast
qed

text \<open>
  C2. \<open>Dsp::process\<close> is three loops one after the other: the refresh of every input
  port, the refresh and zeroing of every output port, the \<open>process\<close> of every matrix
  point in the order of the vector. So, when it returns, an output port of the graph that
  no matrix point of the graph has as its output holds zero at every sample of the block
  (for a graph whose matrix points point to ports of the graph and a backend whose output
  buffers do not overlap).
\<close>

theorem Dsp_process_order_and_silence:
  fixes s :: "'a::{zero,plus,times} state"
  shows "Dsp_process jack n d s =
           ebind (foreach (refresh_input jack n) (inputs d) s) (\<lambda>s1.
           ebind (foreach (refresh_output jack n) (outputs d) s1) (\<lambda>s2.
           foreach (MatrixPoint_process n) (matrix_points d) s2)) \<and>
         (Dsp_process jack n d s = Inr s' \<longrightarrow> points_in_graph d s \<longrightarrow> outputs_separate jack n d s \<longrightarrow>
          b \<in> set (outputs d) \<longrightarrow> (\<forall>m\<in>set (matrix_points d). output_ptr (point_of s m) \<noteq> b) \<longrightarrow>
          (\<exists>q q'. output_ports s b = Some q \<and> output_ports s' b = Some q' \<and>
                   buffer q' = jack (jack_port q) n \<and>
                   (\<forall>i<unat n. samples s' (buffer q' + i) = 0)))"
proof (intro conjI impI)
  show "Dsp_process jack n d s =
           ebind (foreach (refresh_input jack n) (inputs d) s) (\<lambda>s1.
           ebind (foreach (refresh_output jack n) (outputs d) s1) (\<lambda>s2.
           foreach (MatrixPoint_process n) (matrix_points d) s2))"
    by (simp add: Dsp_process_def)
next
  assume run: "Dsp_process jack n d s = Inr s'" and graph: "points_in_graph d s"
    and so: "outputs_separate jack n d s" and b: "b \<in> set (outputs d)"
    and none: "\<forall>m\<in>set (matrix_points d). output_ptr (point_of s m) \<noteq> b"
  from run obtain s2 where "foreach (MatrixPoint_process n) (matrix_points d) s2 = Inr s'"
    and "\<forall>a\<in>set (outputs d). a \<noteq> 0 \<and> output_ports s a \<noteq> None"
    by (rule Dsp_process_phases)
  with b obtain q where q: "output_ports s b = Some q" by auto
  have "output_ports s' b = Some (updateBufferAddress jack n q)"
    using Dsp_process_ports(2) [OF run] b q by simp
  moreover have "samples s' (buffer (updateBufferAddress jack n q) + i) = 0" if "i < unat n" for i
    using Dsp_process_silence [OF run graph so b q none that] by simp
  ultimately show "\<exists>q q'. output_ports s b = Some q \<and> output_ports s' b = Some q' \<and>
                   buffer q' = jack (jack_port q) n \<and>
                   (\<forall>i<unat n. samples s' (buffer q' + i) = 0)"
    using q by simp
qed

theorem Dsp_process_order_and_silence_witness:
  "points_in_graph example_graph example_state \<and>
   outputs_separate (jack_linear 16) 2 example_graph example_state \<and>
   4 \<in> set (outputs example_graph) \<and>
   output_ptr (point_of example_state 10) \<noteq> 4 \<and> output_ptr (point_of example_state 11) \<noteq> 4 \<and>
   samples example_state 22 = 77 \<and>
   (\<exists>s' q'. Dsp_process (jack_linear 16) 2 example_graph example_state = Inr s' \<and>
        output_ports s' 4 = Some q' \<and> buffer q' = 22 \<and>
        samples s' 22 = 0 \<and> samples s' 23 = 0)"
proof -
  from example_run obtain s' where run: "Dsp_process (jack_linear 16) 2 example_graph example_state = Inr s'"
    by blast
  have b: "4 \<in> set (outputs example_graph)" by (simp add: example_graph_def)
  have none: "output_ptr (point_of example_state 10) \<noteq> 4" "output_ptr (point_of example_state 11) \<noteq> 4"
    by (simp_all add: example_state_def point_of_def)
  then have none': "\<forall>m\<in>set (matrix_points example_graph). output_ptr (point_of example_state m) \<noteq> 4"
    by (simp add: example_graph_def)
  have before: "samples example_state 22 = 77" by (simp add: example_state_def)
  from Dsp_process_order_and_silence [of "jack_linear 16" 2 example_graph example_state s' 4]
    run example_ok(1,2) b none'
  obtain q q' where "output_ports example_state 4 = Some q" "output_ports s' 4 = Some q'"
    "buffer q' = jack_linear 16 (jack_port q) 2" and zero: "\<forall>i<unat (2 :: 32 word). samples s' (buffer q' + i) = 0"
    by blast
  then have q': "output_ports s' 4 = Some q'" "buffer q' = 22"
    by (auto simp: example_state_def jack_linear_def)
  have "(0 :: nat) < unat (2 :: 32 word)" "(1 :: nat) < unat (2 :: 32 word)" by simp_all
  with zero have "samples s' (buffer q' + 0) = 0" "samples s' (buffer q' + 1) = 0" by blast+
  with q' have "samples s' 22 = 0" "samples s' 23 = 0" by simp_all
  with run example_ok(1,2) b none before q' show ?thesis by blast
qed

subsection \<open>The same pair connected twice\<close>

text \<open>
  C9. Construct two matrix points, at two addresses, for the same input port and the same
  output port. Both are live afterwards, each with its own gain: the second does not
  replace the first. After one block of the graph made of the two ports and the two points
  (buffers that do not overlap), every sample \<open>i\<close> of the output is
  \<open>(0 + gain1 * input[i]) + gain2 * input[i]\<close>.
\<close>

theorem connect_twice_sums:
  fixes s0 :: "'a::{zero,plus,times} state"
  assumes c1: "MatrixPoint_new m1 a b g1 s0 = Inr s1"
    and c2: "MatrixPoint_new m2 a b g2 s1 = Inr s2"
    and ne: "m1 \<noteq> m2"
    and run: "Dsp_process jack n \<lparr>inputs = [a], outputs = [b], matrix_points = [m1, m2]\<rparr> s2 = Inr s'"
    and p: "input_ports s0 a = Some p" and q: "output_ports s0 b = Some q"
    and sep: "separate (jack (jack_port p) n) (jack (jack_port q) n) n"
    and i: "i < unat n"
  shows "points s2 m1 = Some \<lparr>users_count = 0, input_ptr = a, output_ptr = b, gain = g1\<rparr> \<and>
         points s2 m2 = Some \<lparr>users_count = 0, input_ptr = a, output_ptr = b, gain = g2\<rparr> \<and>
         samples s' (jack (jack_port q) n + i)
           = (0 + g1 * samples s2 (jack (jack_port p) n + i)) + g2 * samples s2 (jack (jack_port p) n + i)"
proof -
  let ?d = "\<lparr>inputs = [a], outputs = [b], matrix_points = [m1, m2]\<rparr>"
  let ?p2 = "incrementUsers (incrementUsers p)" and ?q2 = "incrementUsers (incrementUsers q)"
  from c1 p q have s1: "s1 = s0\<lparr>points := (points s0)(m1 \<mapsto> \<lparr>users_count = 0, input_ptr = a, output_ptr = b, gain = g1\<rparr>),
               input_ports := (input_ports s0)(a \<mapsto> incrementUsers p),
               output_ports := (output_ports s0)(b \<mapsto> incrementUsers q)\<rparr>"
    unfolding MatrixPoint_new_Inr by auto
  from c2 have s2: "s2 = s1\<lparr>points := (points s1)(m2 \<mapsto> \<lparr>users_count = 0, input_ptr = a, output_ptr = b, gain = g2\<rparr>),
               input_ports := (input_ports s1)(a \<mapsto> ?p2),
               output_ports := (output_ports s1)(b \<mapsto> ?q2)\<rparr>"
    unfolding MatrixPoint_new_Inr by (auto simp: s1)
  have pts: "points s2 m1 = Some \<lparr>users_count = 0, input_ptr = a, output_ptr = b, gain = g1\<rparr>"
    "points s2 m2 = Some \<lparr>users_count = 0, input_ptr = a, output_ptr = b, gain = g2\<rparr>"
    using ne by (simp_all add: s1 s2)
  have ports: "input_ports s2 a = Some ?p2" "output_ports s2 b = Some ?q2"
    by (simp_all add: s1 s2)
  have jp: "jack_port ?p2 = jack_port p" "jack_port ?q2 = jack_port q"
    by (simp_all add: incrementUsers_def)
  have graph: "points_in_graph ?d s2"
    using pts by (auto simp: points_in_graph_def)
  have so: "outputs_separate jack n ?d s2"
    by (simp add: outputs_separate_def)
  have si: "inputs_separate jack n ?d s2"
    using sep ports by (simp add: inputs_separate_def jp)
  have b: "b \<in> set (outputs ?d)" by simp
  have here: "point_of s2 m1 = \<lparr>users_count = 0, input_ptr = a, output_ptr = b, gain = g1\<rparr>"
    "point_of s2 m2 = \<lparr>users_count = 0, input_ptr = a, output_ptr = b, gain = g2\<rparr>"
    "block_in_buffer jack n s2 m1 = jack (jack_port p) n"
    "block_in_buffer jack n s2 m2 = jack (jack_port p) n"
    using pts ports by (simp_all add: point_of_def block_in_buffer_def jp)
  from Dsp_process_output [OF run graph so si b ports(2) i]
  have "samples s' (jack (jack_port q) n + i)
           = (0 + g1 * samples s2 (jack (jack_port p) n + i)) + g2 * samples s2 (jack (jack_port p) n + i)"
    by (simp add: jp here)
  with pts show ?thesis by simp
qed

theorem connect_twice_sums_witness:
  "(10 :: nat) \<noteq> 11 \<and>
   input_ports empty_state 1 = Some \<lparr>users_count = 0, jack_port = 0, name = ''A'', buffer = 0\<rparr> \<and>
   output_ports empty_state 3 = Some \<lparr>users_count = 0, jack_port = 2, name = ''O'', buffer = 0\<rparr> \<and>
   separate (jack_linear 16 0 2) (jack_linear 16 2 2) 2 \<and> (1 :: nat) < unat (2 :: 32 word) \<and>
   (\<exists>s1 s2 s'. MatrixPoint_new 10 1 3 2 empty_state = Inr s1 \<and>
       MatrixPoint_new 11 1 3 3 s1 = Inr s2 \<and>
       Dsp_process (jack_linear 16) 2 \<lparr>inputs = [1], outputs = [3], matrix_points = [10, 11]\<rparr> s2 = Inr s' \<and>
       samples s' 21 = 35)"
proof -
  have ne: "(10 :: nat) \<noteq> 11" by simp
  have p: "input_ports empty_state 1 = Some \<lparr>users_count = 0, jack_port = 0, name = ''A'', buffer = 0\<rparr>"
    and q: "output_ports empty_state 3 = Some \<lparr>users_count = 0, jack_port = 2, name = ''O'', buffer = 0\<rparr>"
    by (simp_all add: empty_state_def)
  have sep: "separate (jack_linear 16 0 2) (jack_linear 16 2 2) 2"
    by (simp add: separate_def jack_linear_def)
  have i: "(1 :: nat) < unat (2 :: 32 word)" by simp
  have "\<exists>s1 s2 s'. MatrixPoint_new 10 1 3 2 empty_state = Inr s1 \<and>
       MatrixPoint_new 11 1 3 3 s1 = Inr s2 \<and> samples s2 17 = 7 \<and>
       Dsp_process (jack_linear 16) 2 \<lparr>inputs = [1], outputs = [3], matrix_points = [10, 11]\<rparr> s2 = Inr s'"
    by (simp add: empty_state_def MatrixPoint_new_def input_incrementUsers_def output_incrementUsers_def
          incrementUsers_def process_defs ebind_def deref_def)
  then obtain s1 s2 s' where c1: "MatrixPoint_new 10 1 3 2 empty_state = Inr s1"
    and c2: "MatrixPoint_new 11 1 3 3 s1 = Inr s2" and in17: "samples s2 17 = 7"
    and run: "Dsp_process (jack_linear 16) 2 \<lparr>inputs = [1], outputs = [3], matrix_points = [10, 11]\<rparr> s2 = Inr s'"
    by blast
  have sep': "separate (jack_linear 16 (jack_port \<lparr>users_count = 0, jack_port = 0, name = ''A'', buffer = 0\<rparr>) 2)
                (jack_linear 16 (jack_port \<lparr>users_count = 0, jack_port = 2, name = ''O'', buffer = 0\<rparr>) 2) 2"
    using sep by simp
  from connect_twice_sums [OF c1 c2 ne run p q sep' i] in17
  have "samples s' 21 = 35" by (simp add: jack_linear_def)
  with ne p q sep i c1 c2 run show ?thesis by blast
qed

subsection \<open>Taking ports out of the graph\<close>








end
